theory Spec2Isabelle
  imports Main
begin

section \<open>The record generator of examples/grep-server/generate-script.py\<close>

text \<open>
  The script writes a CSV file: a header row, then one row per index of
  \<open>range(100000)\<close>, each row sampled with \<open>random.choice\<close> and \<open>random.randint\<close>
  and serialised by \<open>csv.writer\<close> (default dialect) into a file opened with
  \<open>newline=""\<close>, inside a \<open>with\<close> block.

  The embedding makes the two effects explicit. The values produced by the random generator
  are a parameter \<open>d :: nat \<Rightarrow> nat\<close> (the raw draws, in the order they are consumed) and a
  position in it; the file is a record holding its handle state, its content and the trace of
  the operations attempted on it, and a parameter \<open>fl :: nat \<Rightarrow> bool\<close> says which of these
  operations (counted from 0) fails with \<open>OSError\<close>.
\<close>

subsection \<open>The module-level tables\<close>

definition depts :: "string list" where
  "depts = [''Engineering'', ''Sales'', ''Marketing'', ''HR'', ''Product'', ''Legal'', ''Support'']"

definition first_names :: "string list" where
  "first_names = [''James'', ''Mary'', ''Robert'', ''Patricia'', ''John'', ''Jennifer'',
     ''Michael'', ''Linda'']"

definition last_names :: "string list" where
  "last_names = [''Smith'', ''Johnson'', ''Williams'', ''Brown'', ''Jones'', ''Garcia'',
     ''Miller'', ''Davis'']"

subsection \<open>Exceptions\<close>

datatype py_error = OSError | IndexError | ValueError

subsection \<open>Strings: \<open>str.lower\<close> and \<open>str\<close> of an integer\<close>

text \<open>On the ASCII strings of the tables, \<open>str.lower\<close> maps \<open>A\<close>..\<open>Z\<close> to \<open>a\<close>..\<open>z\<close>.\<close>

definition lower_char :: "char \<Rightarrow> char" where
  "lower_char c =
     (let n = (of_char c :: nat) in if 65 \<le> n \<and> n \<le> 90 then char_of (n + 32) else c)"

definition lower :: "string \<Rightarrow> string" where
  "lower s = map lower_char s"

definition digit_chars :: string where
  "digit_chars = ''0123456789''"

definition digit_char :: "nat \<Rightarrow> char" where
  "digit_char k = digit_chars ! k"

definition is_digit :: "char \<Rightarrow> bool" where
  "is_digit c = (c \<in> set digit_chars)"

function digits10 :: "nat \<Rightarrow> string" where
  "digits10 n =
     (if n < 10 then [digit_char n] else digits10 (n div 10) @ [digit_char (n mod 10)])"
  by pat_completeness auto
termination
  by (relation "measure (\<lambda>n. n)") simp_all

declare digits10.simps [simp del]

text \<open>\<open>str(i)\<close> for an \<open>int\<close>: the decimal digits, after a minus sign when negative.\<close>

definition py_str :: "int \<Rightarrow> string" where
  "py_str i = (if i < 0 then CHR ''-'' # digits10 (nat (- i)) else digits10 (nat i))"

subsection \<open>The \<open>random\<close> module\<close>

text \<open>
  \<open>random.choice(seq)\<close> is \<open>seq[self._randbelow(len(seq))]\<close>, raising \<open>IndexError\<close> on an
  empty sequence; \<open>random.randint(a, b)\<close> is \<open>a + self._randbelow(b - a + 1)\<close>, raising
  \<open>ValueError\<close> on an empty range. What \<open>_randbelow n\<close> returns is not modelled beyond
  its range: it is the next raw draw reduced below \<open>n\<close>, so that every value below \<open>n\<close> and
  no other can come out (\<open>randbelow_range\<close>, \<open>randbelow_any\<close> below).
\<close>

definition randbelow :: "(nat \<Rightarrow> nat) \<Rightarrow> nat \<Rightarrow> nat \<Rightarrow> nat \<times> nat" where
  "randbelow d n p = (d p mod n, Suc p)"

definition choice :: "(nat \<Rightarrow> nat) \<Rightarrow> 'a list \<Rightarrow> nat \<Rightarrow> py_error + ('a \<times> nat)" where
  "choice d seq p =
     (if seq = [] then Inl IndexError
      else (case randbelow d (length seq) p of (k, p') \<Rightarrow> Inr (seq ! k, p')))"

definition randint :: "(nat \<Rightarrow> nat) \<Rightarrow> int \<Rightarrow> int \<Rightarrow> nat \<Rightarrow> py_error + (int \<times> nat)" where
  "randint d a b p =
     (if b < a then Inl ValueError
      else (case randbelow d (nat (b - a + 1)) p of (k, p') \<Rightarrow> Inr (a + int k, p')))"

subsection \<open>The \<open>csv\<close> writer, default dialect\<close>

text \<open>
  The default dialect \<open>excel\<close>: delimiter \<open>,\<close>, quote character \<open>"\<close>, doubled when it
  occurs in a field, \<open>QUOTE_MINIMAL\<close> (a field is quoted when it contains the delimiter, the
  quote character or a character of the line terminator), line terminator CR LF. A cell that
  is not a string is converted with \<open>str\<close>. A record of one empty field is written as
  \<open>""\<close>.
\<close>

datatype cell = S string | I int

fun cell_text :: "cell \<Rightarrow> string" where
  "cell_text (S s) = s"
| "cell_text (I i) = py_str i"

definition delimiter :: char where
  "delimiter = CHR '',''"

definition quotechar :: char where
  "quotechar = CHR 0x22"

definition CR :: char where
  "CR = CHR 0x0D"

definition LF :: char where
  "LF = CHR 0x0A"

definition lineterminator :: string where
  "lineterminator = [CR, LF]"

definition needs_quote :: "string \<Rightarrow> bool" where
  "needs_quote s = (\<exists>c \<in> set s. c = delimiter \<or> c = quotechar \<or> c \<in> set lineterminator)"

definition quoted :: "string \<Rightarrow> string" where
  "quoted s =
     quotechar # concat (map (\<lambda>c. if c = quotechar then [c, c] else [c]) s) @ [quotechar]"

definition csv_field :: "cell \<Rightarrow> string" where
  "csv_field c = (let s = cell_text c in if needs_quote s then quoted s else s)"

fun join :: "string \<Rightarrow> string list \<Rightarrow> string" where
  "join sep [] = []"
| "join sep [x] = x"
| "join sep (x # y # ys) = x @ sep @ join sep (y # ys)"

definition csv_record :: "cell list \<Rightarrow> string" where
  "csv_record cells =
     (let body = join [delimiter] (map csv_field cells)
      in (if cells \<noteq> [] \<and> body = [] then quoted [] else body) @ lineterminator)"

subsection \<open>The file\<close>

datatype handle_state = Unopened | Opened | Closed

datatype sink_op = OpOpen | OpWrite string | OpClose

record sink =
  handle :: handle_state
  content :: string
  oplog :: "sink_op list"

text \<open>The file before the script runs: whatever it held, no handle on it, nothing attempted.\<close>

definition new_sink :: "string \<Rightarrow> sink" where
  "new_sink old = \<lparr>handle = Unopened, content = old, oplog = []\<rparr>"

text \<open>
  \<open>open(path, "w", newline="")\<close>: truncates; no newline translation on writing. An
  operation on the file object (opening, a write, closing) either succeeds or raises
  \<open>OSError\<close>. \<open>content\<close> is the text that the file object has accepted: the content of the
  file once it has been closed without failure. The file object buffers, so after a failed
  write or a failed close part of the accepted text may not have reached the file; what the
  file holds then is not modelled. Closing releases the handle also when flushing fails.
\<close>

definition file_open :: "(nat \<Rightarrow> bool) \<Rightarrow> sink \<Rightarrow> (py_error + unit) \<times> sink" where
  "file_open fl f =
     (let f' = f\<lparr>oplog := oplog f @ [OpOpen]\<rparr>
      in if fl (length (oplog f)) then (Inl OSError, f')
         else (Inr (), f'\<lparr>handle := Opened, content := []\<rparr>))"

definition file_write :: "(nat \<Rightarrow> bool) \<Rightarrow> string \<Rightarrow> sink \<Rightarrow> (py_error + unit) \<times> sink" where
  "file_write fl data f =
     (if handle f \<noteq> Opened then (Inl ValueError, f)
      else let f' = f\<lparr>oplog := oplog f @ [OpWrite data]\<rparr>
           in if fl (length (oplog f)) then (Inl OSError, f')
              else (Inr (), f'\<lparr>content := content f @ data\<rparr>))"

definition file_close :: "(nat \<Rightarrow> bool) \<Rightarrow> sink \<Rightarrow> (py_error + unit) \<times> sink" where
  "file_close fl f =
     (let f' = f\<lparr>oplog := oplog f @ [OpClose], handle := Closed\<rparr>
      in if fl (length (oplog f)) then (Inl OSError, f') else (Inr (), f'))"

definition writerow :: "(nat \<Rightarrow> bool) \<Rightarrow> cell list \<Rightarrow> sink \<Rightarrow> (py_error + unit) \<times> sink" where
  "writerow fl cells f = file_write fl (csv_record cells) f"

subsection \<open>The script\<close>

definition header :: "cell list" where
  "header = [S ''name'', S ''email'', S ''age'', S ''salary'', S ''department'']"

text \<open>The variables bound by one iteration of the loop.\<close>

record locals =
  fname :: string
  lname :: string
  name :: string
  email :: string
  age :: int
  salary :: int
  dept :: string

text \<open>Lines 30 to 36: the five draws of iteration \<open>i\<close>, from position \<open>p\<close> of the draws.\<close>

definition sample :: "(nat \<Rightarrow> nat) \<Rightarrow> nat \<Rightarrow> nat \<Rightarrow> py_error + (locals \<times> nat)" where
  "sample d i p =
     (case choice d first_names p of Inl e \<Rightarrow> Inl e | Inr (fn, p1) \<Rightarrow>
      (case choice d last_names p1 of Inl e \<Rightarrow> Inl e | Inr (ln, p2) \<Rightarrow>
       (let nm = fn @ '' '' @ ln;
            em = lower fn @ ''.'' @ lower ln @ py_str (int i) @ ''@company.com''
        in (case randint d 22 65 p2 of Inl e \<Rightarrow> Inl e | Inr (ag, p3) \<Rightarrow>
            (case randint d 40000 160000 p3 of Inl e \<Rightarrow> Inl e | Inr (sa, p4) \<Rightarrow>
             (case choice d depts p4 of Inl e \<Rightarrow> Inl e | Inr (dp, p5) \<Rightarrow>
                Inr (\<lparr>fname = fn, lname = ln, name = nm, email = em, age = ag,
                       salary = sa, dept = dp\<rparr>, p5)))))))"

text \<open>Line 37: the row handed to \<open>w.writerow\<close>.\<close>

definition row_cells :: "locals \<Rightarrow> cell list" where
  "row_cells r = [S (name r), S (email r), I (age r), I (salary r), S (dept r)]"

text \<open>The \<open>for\<close> loop over the indices; an exception leaves it at once.\<close>

fun rows_loop ::
  "(nat \<Rightarrow> nat) \<Rightarrow> (nat \<Rightarrow> bool) \<Rightarrow> nat list \<Rightarrow> nat \<Rightarrow> sink \<Rightarrow> (py_error + unit) \<times> nat \<times> sink"
where
  "rows_loop d fl [] p f = (Inr (), p, f)"
| "rows_loop d fl (i # is) p f =
     (case sample d i p of
        Inl e \<Rightarrow> (Inl e, p, f)
      | Inr (r, p') \<Rightarrow>
          (case writerow fl (row_cells r) f of
             (Inl e, f') \<Rightarrow> (Inl e, p', f')
           | (Inr u, f') \<Rightarrow> rows_loop d fl is p' f'))"

text \<open>The body of the \<open>with\<close> block, for \<open>range(N)\<close>.\<close>

definition with_body ::
  "(nat \<Rightarrow> nat) \<Rightarrow> (nat \<Rightarrow> bool) \<Rightarrow> nat \<Rightarrow> nat \<Rightarrow> sink \<Rightarrow> (py_error + unit) \<times> nat \<times> sink"
where
  "with_body d fl N p f =
     (case writerow fl header f of
        (Inl e, f') \<Rightarrow> (Inl e, p, f')
      | (Inr u, f') \<Rightarrow> rows_loop d fl [0..<N] p f')"

text \<open>
  The \<open>with\<close> statement: when \<open>open\<close> raises, nothing else runs; otherwise the file is
  closed when the body is left, normally or by an exception, and an exception of the body
  propagates unless closing raises one itself.
\<close>

definition generate ::
  "(nat \<Rightarrow> nat) \<Rightarrow> (nat \<Rightarrow> bool) \<Rightarrow> nat \<Rightarrow> string \<Rightarrow> (py_error + unit) \<times> nat \<times> sink"
where
  "generate d fl N old =
     (case file_open fl (new_sink old) of
        (Inl e, f) \<Rightarrow> (Inl e, 0, f)
      | (Inr u, f) \<Rightarrow>
          (case with_body d fl N 0 f of
             (r, p, f') \<Rightarrow>
               (case file_close fl f' of
                  (Inl e, f'') \<Rightarrow> (Inl e, p, f'')
                | (Inr u', f'') \<Rightarrow> (r, p, f''))))"

definition record_count :: nat where
  "record_count = 100000"

definition script :: "(nat \<Rightarrow> nat) \<Rightarrow> (nat \<Rightarrow> bool) \<Rightarrow> string \<Rightarrow> (py_error + unit) \<times> nat \<times> sink" where
  "script d fl old = generate d fl record_count old"

subsection \<open>Closed forms used in the proofs\<close>

text \<open>
  The value of a decimal numeral, to read \<open>digits10\<close> back; the row that \<open>sample\<close>
  returns (\<open>sample_row_at\<close> below); the lines that \<open>rows_loop\<close> writes when no write
  fails (\<open>rows_loop_ok\<close> below).
\<close>

fun index_of :: "'a \<Rightarrow> 'a list \<Rightarrow> nat" where
  "index_of c [] = 0"
| "index_of c (x # xs) = (if x = c then 0 else Suc (index_of c xs))"

definition digit_val :: "char \<Rightarrow> nat" where
  "digit_val c = index_of c digit_chars"

definition dec_val :: "string \<Rightarrow> nat" where
  "dec_val s = foldl (\<lambda>a c. 10 * a + digit_val c) 0 s"

definition row_at :: "(nat \<Rightarrow> nat) \<Rightarrow> nat \<Rightarrow> nat \<Rightarrow> locals" where
  "row_at d i p =
     \<lparr>fname = first_names ! (d p mod 8),
      lname = last_names ! (d (p + 1) mod 8),
      name = first_names ! (d p mod 8) @ '' '' @ last_names ! (d (p + 1) mod 8),
      email = lower (first_names ! (d p mod 8)) @ ''.'' @ lower (last_names ! (d (p + 1) mod 8))
              @ py_str (int i) @ ''@company.com'',
      age = 22 + int (d (p + 2) mod 44),
      salary = 40000 + int (d (p + 3) mod 120001),
      dept = depts ! (d (p + 4) mod 7)\<rparr>"

definition line_at :: "(nat \<Rightarrow> nat) \<Rightarrow> nat \<Rightarrow> string" where
  "line_at d i = csv_record (row_cells (row_at d i (5 * i)))"

fun lines_from :: "(nat \<Rightarrow> nat) \<Rightarrow> nat list \<Rightarrow> nat \<Rightarrow> string list" where
  "lines_from d [] p = []"
| "lines_from d (i # is) p = csv_record (row_cells (row_at d i p)) # lines_from d is (p + 5)"

text \<open>Character classes of the fields: ASCII letters, and what the writer never quotes.\<close>

definition is_letter :: "char \<Rightarrow> bool" where
  "is_letter c =
     (let n = (of_char c :: nat) in (65 \<le> n \<and> n \<le> 90) \<or> (97 \<le> n \<and> n \<le> 122))"

definition plain :: "char \<Rightarrow> bool" where
  "plain c = (c \<noteq> delimiter \<and> c \<noteq> quotechar \<and> c \<noteq> CR \<and> c \<noteq> LF)"

text \<open>The number of line terminators in a text, and the text of the header line.\<close>

definition line_count :: "string \<Rightarrow> nat" where
  "line_count s = length (filter (\<lambda>c. c = LF) s)"

definition header_text :: string where
  "header_text = ''name,email,age,salary,department''"

subsection \<open>What a run wrote\<close>

text \<open>
  The five field strings of a row; \<open>run_rows d N rs\<close>: \<open>rs\<close> are the rows that the \<open>N\<close>
  iterations sample from the draws \<open>d\<close>, iteration \<open>i\<close> starting at draw \<open>5 * i\<close>;
  \<open>wrote f rs\<close>: the file holds the header record followed by the records of \<open>rs\<close>, in
  order; \<open>outcome\<close>: the value a random primitive returned, without the generator state;
  \<open>count_char c s\<close>: the number of occurrences of \<open>c\<close> in \<open>s\<close>.
\<close>

definition fields_of :: "locals \<Rightarrow> string list" where
  "fields_of r = map cell_text (row_cells r)"

definition run_rows :: "(nat \<Rightarrow> nat) \<Rightarrow> nat \<Rightarrow> locals list \<Rightarrow> bool" where
  "run_rows d N rs =
     (length rs = N \<and> (\<forall>i < N. sample d i (5 * i) = Inr (rs ! i, 5 * i + 5)))"

definition wrote :: "sink \<Rightarrow> locals list \<Rightarrow> bool" where
  "wrote f rs =
     (content f = csv_record header @ concat (map (\<lambda>r. csv_record (row_cells r)) rs))"

text \<open>The lines of such a file, without their terminators.\<close>

definition file_lines :: "locals list \<Rightarrow> string list" where
  "file_lines rs = header_text # map (\<lambda>r. join [delimiter] (fields_of r)) rs"

fun outcome :: "py_error + ('a \<times> nat) \<Rightarrow> 'a option" where
  "outcome (Inl e) = None"
| "outcome (Inr (v, p)) = Some v"

definition count_char :: "char \<Rightarrow> string \<Rightarrow> nat" where
  "count_char c s = length (filter (\<lambda>x. x = c) s)"

definition is_lower :: "char \<Rightarrow> bool" where
  "is_lower c = (let n = (of_char c :: nat) in 97 \<le> n \<and> n \<le> 122)"

text \<open>
  The number that a string of ASCII digits denotes in base ten, read from the character
  codes (\<open>0\<close> is code 48), independently of the table \<open>digit_chars\<close>.
\<close>

definition decimal_value :: "string \<Rightarrow> nat" where
  "decimal_value s = foldl (\<lambda>a c. 10 * a + ((of_char c :: nat) - 48)) 0 s"

text \<open>
  The texts of the \<open>N + 1\<close> writes of a complete run, in order; and, of the \<open>n\<close> operations
  numbered \<open>a\<close>, \<open>a + 1\<close>, ..., how many succeed before the first one that fails.
\<close>

definition records :: "(nat \<Rightarrow> nat) \<Rightarrow> nat \<Rightarrow> string list" where
  "records d N = csv_record header # map (line_at d) [0..<N]"

fun ok_ops :: "(nat \<Rightarrow> bool) \<Rightarrow> nat \<Rightarrow> nat \<Rightarrow> nat" where
  "ok_ops fl a 0 = 0"
| "ok_ops fl a (Suc n) = (if fl a then 0 else Suc (ok_ops fl (Suc a) n))"

section \<open>Properties of the library primitives\<close>

subsection \<open>Decimal numerals\<close>

lemma index_of_nth: "distinct xs \<Longrightarrow> k < length xs \<Longrightarrow> index_of (xs ! k) xs = k"
proof (induction xs arbitrary: k)
  case Nil
  then show ?case by simp
next
  case (Cons x xs)
  show ?case
  proof (cases k)
    case 0
    then show ?thesis by simp
  next
    case (Suc j)
    with Cons.prems have "xs ! j \<in> set xs" and "x \<notin> set xs" by simp_all
    then have "x \<noteq> xs ! j" by blast
    with Suc Cons show ?thesis by simp
  qed
qed

lemma distinct_digit_chars: "distinct digit_chars"
  by (simp add: digit_chars_def)

lemma digit_val_digit_char: "k < 10 \<Longrightarrow> digit_val (digit_char k) = k"
  unfolding digit_val_def digit_char_def
  by (rule index_of_nth [OF distinct_digit_chars]) (simp add: digit_chars_def)

lemma digits10_small: "n < 10 \<Longrightarrow> digits10 n = [digit_char n]"
  by (subst digits10.simps) simp

lemma digits10_big:
  "\<not> n < 10 \<Longrightarrow> digits10 n = digits10 (n div 10) @ [digit_char (n mod 10)]"
  by (subst digits10.simps) simp

lemma digit_char_is_digit: "k < 10 \<Longrightarrow> is_digit (digit_char k)"
  unfolding is_digit_def digit_char_def by (rule nth_mem) (simp add: digit_chars_def)

lemma digits10_digits: "c \<in> set (digits10 n) \<Longrightarrow> is_digit c"
proof (induction n arbitrary: c rule: digits10.induct)
  case (1 n)
  show ?case
  proof (cases "n < 10")
    case True
    then have "digits10 n = [digit_char n]" by (rule digits10_small)
    with "1.prems" True show ?thesis
      by (simp add: digit_char_is_digit)
  next
    case False
    then have e: "digits10 n = digits10 (n div 10) @ [digit_char (n mod 10)]"
      by (rule digits10_big)
    from "1.prems" have "c \<in> set (digits10 (n div 10)) \<or> c = digit_char (n mod 10)"
      unfolding e by auto
    then show ?thesis
    proof
      assume "c \<in> set (digits10 (n div 10))"
      with False show ?thesis by (rule "1.IH")
    next
      have "n mod 10 < 10" by simp
      then have "is_digit (digit_char (n mod 10))" by (rule digit_char_is_digit)
      moreover assume "c = digit_char (n mod 10)"
      ultimately show ?thesis by simp
    qed
  qed
qed

lemma digits10_nonempty: "digits10 n \<noteq> []"
proof (cases "n < 10")
  case True
  then show ?thesis by (simp add: digits10_small)
next
  case False
  then have "digits10 n = digits10 (n div 10) @ [digit_char (n mod 10)]"
    by (rule digits10_big)
  then show ?thesis by simp
qed

lemma dec_val_snoc: "dec_val (s @ [c]) = 10 * dec_val s + digit_val c"
  by (simp add: dec_val_def)

lemma dec_val_single: "dec_val [c] = digit_val c"
  by (simp add: dec_val_def)

lemma dec_val_digits10: "dec_val (digits10 n) = n"
proof (induction n rule: digits10.induct)
  case (1 n)
  show ?case
  proof (cases "n < 10")
    case True
    then have "digits10 n = [digit_char n]" by (rule digits10_small)
    with True show ?thesis
      by (simp add: dec_val_single digit_val_digit_char)
  next
    case False
    then have e: "digits10 n = digits10 (n div 10) @ [digit_char (n mod 10)]"
      by (rule digits10_big)
    have "n mod 10 < 10" by simp
    then have dv: "digit_val (digit_char (n mod 10)) = n mod 10"
      by (rule digit_val_digit_char)
    from False have ih: "dec_val (digits10 (n div 10)) = n div 10"
      by (rule "1.IH")
    show ?thesis
      unfolding e dec_val_snoc ih dv by simp
  qed
qed

lemma digits10_inj: "digits10 a = digits10 b \<Longrightarrow> a = b"
proof -
  assume "digits10 a = digits10 b"
  then have "dec_val (digits10 a) = dec_val (digits10 b)" by (rule arg_cong)
  then show "a = b" by (simp only: dec_val_digits10)
qed

lemma py_str_nat: "py_str (int i) = digits10 i"
  by (simp add: py_str_def)

lemma py_str_nonneg: "0 \<le> i \<Longrightarrow> py_str i = digits10 (nat i)"
  by (simp add: py_str_def)

subsection \<open>The random primitives\<close>

lemma randbelow_range: "0 < n \<Longrightarrow> fst (randbelow d n p) < n"
  by (simp add: randbelow_def)

lemma randbelow_any: "k < n \<Longrightarrow> fst (randbelow (\<lambda>q. k) n p) = k"
  by (simp add: randbelow_def)

lemma choice_nonempty:
  "seq \<noteq> [] \<Longrightarrow> choice d seq p = Inr (seq ! (d p mod length seq), Suc p)"
  by (simp add: choice_def randbelow_def)

lemma randint_nonempty:
  "a \<le> b \<Longrightarrow> randint d a b p = Inr (a + int (d p mod nat (b - a + 1)), Suc p)"
  by (simp add: randint_def randbelow_def)

lemma length_first_names: "length first_names = 8"
  by (simp add: first_names_def)

lemma length_last_names: "length last_names = 8"
  by (simp add: last_names_def)

lemma length_depts: "length depts = 7"
  by (simp add: depts_def)

lemma first_names_nonempty: "first_names \<noteq> []"
  by (simp add: first_names_def)

lemma last_names_nonempty: "last_names \<noteq> []"
  by (simp add: last_names_def)

lemma depts_nonempty: "depts \<noteq> []"
  by (simp add: depts_def)

lemma add_as_Suc:
  "p + 2 = Suc (Suc p)" "p + 3 = Suc (Suc (Suc p))" "p + 4 = Suc (Suc (Suc (Suc p)))"
  "p + 5 = Suc (Suc (Suc (Suc (Suc p))))"
  by simp_all

lemma sample_row_at: "sample d i p = Inr (row_at d i p, p + 5)"
  by (simp add: sample_def row_at_def choice_nonempty randint_nonempty
      first_names_nonempty last_names_nonempty depts_nonempty
      length_first_names length_last_names length_depts add_as_Suc)

lemma first_name_mem: "first_names ! (k mod 8) \<in> set first_names"
  by (rule nth_mem) (simp add: length_first_names)

lemma last_name_mem: "last_names ! (k mod 8) \<in> set last_names"
  by (rule nth_mem) (simp add: length_last_names)

lemma dept_mem: "depts ! (k mod 7) \<in> set depts"
  by (rule nth_mem) (simp add: length_depts)


subsection \<open>Characters of the fields\<close>

lemma first_names_letters: "\<forall>f \<in> set first_names. \<forall>c \<in> set f. is_letter c"
  by code_simp

lemma last_names_letters: "\<forall>f \<in> set last_names. \<forall>c \<in> set f. is_letter c"
  by code_simp

lemma depts_letters: "\<forall>f \<in> set depts. \<forall>c \<in> set f. is_letter c"
  by code_simp

lemma lower_first_names_letters: "\<forall>f \<in> set first_names. \<forall>c \<in> set (lower f). is_letter c"
  by code_simp

lemma lower_last_names_letters: "\<forall>f \<in> set last_names. \<forall>c \<in> set (lower f). is_letter c"
  by code_simp

lemma digits_not_letters: "\<forall>c \<in> set digit_chars. \<not> is_letter c"
  by code_simp

lemma digits_plain: "\<forall>c \<in> set digit_chars. plain c"
  by code_simp

lemma letter_not_digit: "is_letter c \<Longrightarrow> \<not> is_digit c"
  using digits_not_letters by (auto simp: is_digit_def)

lemma digit_plain: "is_digit c \<Longrightarrow> plain c"
  using digits_plain by (auto simp: is_digit_def)

lemma letter_plain: "is_letter c \<Longrightarrow> plain c"
  by (auto simp: is_letter_def plain_def delimiter_def quotechar_def CR_def LF_def)

lemma letter_not_dot: "is_letter c \<Longrightarrow> c \<noteq> CHR ''.''"
  by (auto simp: is_letter_def)

lemma letter_not_space: "is_letter c \<Longrightarrow> c \<noteq> CHR '' ''"
  by (auto simp: is_letter_def)

lemma letter_not_at: "is_letter c \<Longrightarrow> c \<noteq> CHR ''@''"
  by (auto simp: is_letter_def)

subsection \<open>The writer on plain fields\<close>

lemma needs_quote_plain: "needs_quote s = (\<exists>c \<in> set s. \<not> plain c)"
  by (auto simp: needs_quote_def plain_def lineterminator_def)

lemma csv_field_plain: "\<forall>c \<in> set (cell_text x). plain c \<Longrightarrow> csv_field x = cell_text x"
  by (simp add: csv_field_def needs_quote_plain)

lemma csv_record_plain5:
  assumes "\<forall>c \<in> set (cell_text a). plain c" "\<forall>c \<in> set (cell_text b). plain c"
    "\<forall>c \<in> set (cell_text x). plain c" "\<forall>c \<in> set (cell_text y). plain c"
    "\<forall>c \<in> set (cell_text z). plain c"
  shows "csv_record [a, b, x, y, z] =
    cell_text a @ '','' @ cell_text b @ '','' @ cell_text x @ '','' @ cell_text y @ '',''
      @ cell_text z @ [CR, LF]"
  using assms by (simp add: csv_record_def csv_field_plain delimiter_def lineterminator_def)

lemma header_record: "csv_record header = header_text @ [CR, LF]"
  by (simp add: csv_record_def header_def csv_field_def needs_quote_def delimiter_def
      quotechar_def lineterminator_def CR_def LF_def header_text_def)

lemma py_str_plain: "0 \<le> i \<Longrightarrow> c \<in> set (py_str i) \<Longrightarrow> plain c"
  by (simp add: py_str_nonneg) (blast intro: digit_plain digits10_digits)

lemma first_name_letters: "c \<in> set (first_names ! (k mod 8)) \<Longrightarrow> is_letter c"
  using first_names_letters first_name_mem by blast

lemma last_name_letters: "c \<in> set (last_names ! (k mod 8)) \<Longrightarrow> is_letter c"
  using last_names_letters last_name_mem by blast

lemma dept_letters: "c \<in> set (depts ! (k mod 7)) \<Longrightarrow> is_letter c"
  using depts_letters dept_mem by blast

lemma lower_first_name_letters: "c \<in> set (lower (first_names ! (k mod 8))) \<Longrightarrow> is_letter c"
  using lower_first_names_letters first_name_mem by blast

lemma lower_last_name_letters: "c \<in> set (lower (last_names ! (k mod 8))) \<Longrightarrow> is_letter c"
  using lower_last_names_letters last_name_mem by blast

lemma domain_plain: "\<forall>c \<in> set ''@company.com''. plain c"
  by code_simp

lemma space_plain: "plain CHR '' ''" and dot_plain: "plain CHR ''.''"
  by code_simp+

lemma name_plain: "c \<in> set (name (row_at d i p)) \<Longrightarrow> plain c"
  by (auto simp: row_at_def space_plain dest: first_name_letters last_name_letters
      intro: letter_plain)

lemma email_plain: "c \<in> set (email (row_at d i p)) \<Longrightarrow> plain c"
  using domain_plain
  by (auto simp: row_at_def dot_plain py_str_nat
      dest: lower_first_name_letters lower_last_name_letters digits10_digits
      intro: letter_plain digit_plain)

lemma age_plain: "c \<in> set (py_str (age (row_at d i p))) \<Longrightarrow> plain c"
  by (rule py_str_plain [of "age (row_at d i p)"]) (simp_all add: row_at_def)

lemma salary_plain: "c \<in> set (py_str (salary (row_at d i p))) \<Longrightarrow> plain c"
  by (rule py_str_plain [of "salary (row_at d i p)"]) (simp_all add: row_at_def)

lemma dept_plain: "c \<in> set (dept (row_at d i p)) \<Longrightarrow> plain c"
  by (auto simp: row_at_def dest: dept_letters intro: letter_plain)

lemma row_record:
  "csv_record (row_cells (row_at d i p)) =
     name (row_at d i p) @ '','' @ email (row_at d i p) @ '','' @ py_str (age (row_at d i p))
       @ '','' @ py_str (salary (row_at d i p)) @ '','' @ dept (row_at d i p) @ [CR, LF]"
  unfolding row_cells_def
  by (subst csv_record_plain5)
     (simp_all add: name_plain email_plain age_plain salary_plain dept_plain)

section \<open>The run when no operation on the file fails\<close>

lemma file_write_ok:
  "handle f = Opened \<Longrightarrow> \<not> fl (length (oplog f)) \<Longrightarrow>
   file_write fl data f =
     (Inr (), f\<lparr>oplog := oplog f @ [OpWrite data], content := content f @ data\<rparr>)"
  by (simp add: file_write_def)

lemma rows_loop_ok:
  "handle f = Opened \<Longrightarrow> (\<And>k. \<not> fl k) \<Longrightarrow>
   rows_loop d fl is p f =
     (Inr (), p + 5 * length is,
      f\<lparr>oplog := oplog f @ map OpWrite (lines_from d is p),
        content := content f @ concat (lines_from d is p)\<rparr>)"
proof (induction "is" arbitrary: p f)
  case Nil
  then show ?case by simp
next
  case (Cons i "is")
  let ?l = "csv_record (row_cells (row_at d i p))"
  let ?f = "f\<lparr>oplog := oplog f @ [OpWrite ?l], content := content f @ ?l\<rparr>"
  have w: "writerow fl (row_cells (row_at d i p)) f = (Inr (), ?f)"
    unfolding writerow_def using Cons.prems by (simp add: file_write_ok)
  have h: "handle ?f = Opened" using Cons.prems by simp
  have "rows_loop d fl (i # is) p f = rows_loop d fl is (p + 5) ?f"
    by (simp add: sample_row_at w)
  also have "\<dots> = (Inr (), p + 5 + 5 * length is,
      ?f\<lparr>oplog := oplog ?f @ map OpWrite (lines_from d is (p + 5)),
        content := content ?f @ concat (lines_from d is (p + 5))\<rparr>)"
    using h Cons.prems(2) by (rule Cons.IH)
  finally show ?case by simp
qed

lemma lines_from_upt: "lines_from d [a..<a + n] (5 * a) = map (line_at d) [a..<a + n]"
proof (induction n arbitrary: a)
  case 0
  then show ?case by simp
next
  case (Suc n)
  have u: "[a..<a + Suc n] = a # [Suc a..<Suc a + n]"
    by (simp add: upt_conv_Cons)
  have "lines_from d [Suc a..<Suc a + n] (5 * Suc a) = map (line_at d) [Suc a..<Suc a + n]"
    by (rule Suc.IH)
  moreover have "5 * Suc a = 5 * a + 5" by simp
  ultimately have ih:
    "lines_from d [Suc a..<Suc a + n] (5 * a + 5) = map (line_at d) [Suc a..<Suc a + n]"
    by (simp only:)
  have "lines_from d (a # [Suc a..<Suc a + n]) (5 * a) =
      line_at d a # lines_from d [Suc a..<Suc a + n] (5 * a + 5)"
    by (simp add: line_at_def)
  then show ?case
    unfolding u ih by simp
qed

lemma lines_from_range: "lines_from d [0..<N] 0 = map (line_at d) [0..<N]"
  using lines_from_upt [of d 0 N] by simp

lemma generate_ok:
  assumes "\<And>k. \<not> fl k"
  shows "generate d fl N old =
    (Inr (), 5 * N,
     \<lparr>handle = Closed,
      content = csv_record header @ concat (map (line_at d) [0..<N]),
      oplog = OpOpen # OpWrite (csv_record header) # map OpWrite (map (line_at d) [0..<N])
        @ [OpClose]\<rparr>)"
proof -
  let ?f1 = "\<lparr>handle = Opened, content = [], oplog = [OpOpen]\<rparr>"
  let ?f2 = "\<lparr>handle = Opened, content = csv_record header,
      oplog = [OpOpen, OpWrite (csv_record header)]\<rparr>"
  have o: "file_open fl (new_sink old) = (Inr (), ?f1)"
    using assms by (simp add: file_open_def new_sink_def)
  have w: "writerow fl header ?f1 = (Inr (), ?f2)"
    unfolding writerow_def using assms by (simp add: file_write_ok)
  have "handle ?f2 = Opened" by simp
  then have l: "rows_loop d fl [0..<N] 0 ?f2 =
     (Inr (), 0 + 5 * length [0..<N],
      ?f2\<lparr>oplog := oplog ?f2 @ map OpWrite (lines_from d [0..<N] 0),
        content := content ?f2 @ concat (lines_from d [0..<N] 0)\<rparr>)"
    using assms by (rule rows_loop_ok)
  have b: "with_body d fl N 0 ?f1 =
     (Inr (), 5 * N,
      \<lparr>handle = Opened, content = csv_record header @ concat (map (line_at d) [0..<N]),
       oplog = [OpOpen, OpWrite (csv_record header)] @ map OpWrite (map (line_at d) [0..<N])\<rparr>)"
    unfolding with_body_def w using l by (simp add: lines_from_range)
  show ?thesis
    unfolding generate_def o using assms by (simp add: b file_close_def)
qed

subsection \<open>The rows of a run\<close>

lemma run_rows_row_at: "run_rows d N (map (\<lambda>i. row_at d i (5 * i)) [0..<N])"
  by (simp add: run_rows_def sample_row_at)

lemma run_rows_nth: "run_rows d N rs \<Longrightarrow> i < N \<Longrightarrow> rs ! i = row_at d i (5 * i)"
  by (simp add: run_rows_def sample_row_at)

lemma map_line_at: "map (line_at d) [0..<N] =
    map (\<lambda>r. csv_record (row_cells r)) (map (\<lambda>i. row_at d i (5 * i)) [0..<N])"
  by (simp add: line_at_def comp_def)

lemma run_ok:
  assumes "\<And>k. \<not> fl k"
  shows "\<exists>f rs. generate d fl N old = (Inr (), 5 * N, f) \<and> handle f = Closed
     \<and> run_rows d N rs \<and> wrote f rs"
proof -
  let ?rs = "map (\<lambda>i. row_at d i (5 * i)) [0..<N]"
  let ?f = "\<lparr>handle = Closed,
      content = csv_record header @ concat (map (line_at d) [0..<N]),
      oplog = OpOpen # OpWrite (csv_record header) # map OpWrite (map (line_at d) [0..<N])
        @ [OpClose]\<rparr>"
  have "generate d fl N old = (Inr (), 5 * N, ?f)"
    using assms by (rule generate_ok)
  moreover have "handle ?f = Closed" by simp
  moreover have "run_rows d N ?rs" by (rule run_rows_row_at)
  moreover have "wrote ?f ?rs"
    unfolding wrote_def map_line_at by simp
  ultimately show ?thesis by blast
qed

lemma age_range: "22 \<le> age (row_at d i p) \<and> age (row_at d i p) \<le> 65"
proof -
  have "d (p + 2) mod 44 < 44" by simp
  then show ?thesis by (simp add: row_at_def)
qed

lemma salary_range: "40000 \<le> salary (row_at d i p) \<and> salary (row_at d i p) \<le> 160000"
proof -
  have "d (p + 3) mod 120001 < 120001" by simp
  then show ?thesis by (simp add: row_at_def)
qed

lemma row_at_low: "age (row_at (\<lambda>k. 0) i p) = 22 \<and> salary (row_at (\<lambda>k. 0) i p) = 40000"
  by (simp add: row_at_def)

lemma row_at_high:
  "age (row_at (\<lambda>k. if k = p + 2 then 43 else 120000) i p) = 65
   \<and> salary (row_at (\<lambda>k. if k = p + 2 then 43 else 120000) i p) = 160000"
  by (simp add: row_at_def)

section \<open>The claims\<close>

text \<open>
  C5: in a run where no file operation fails, every row written has an age between 22 and 65
  and a salary between 40000 and 160000, both bounds included; and for every row index there
  are draws that give the lower bounds and draws that give the upper bounds.
\<close>

theorem numeric_fields_in_range:
  assumes "\<And>k. \<not> fl k"
  shows "\<exists>f rs. generate d fl N old = (Inr (), 5 * N, f) \<and> run_rows d N rs \<and> wrote f rs
     \<and> (\<forall>i < N. 22 \<le> age (rs ! i) \<and> age (rs ! i) \<le> 65
           \<and> 40000 \<le> salary (rs ! i) \<and> salary (rs ! i) \<le> 160000)
     \<and> (\<exists>d' r. sample d' i p = Inr (r, p + 5) \<and> age r = 22 \<and> salary r = 40000)
     \<and> (\<exists>d' r. sample d' i p = Inr (r, p + 5) \<and> age r = 65 \<and> salary r = 160000)"
proof -
  from assms obtain f rs where g: "generate d fl N old = (Inr (), 5 * N, f)"
    and r: "run_rows d N rs" and w: "wrote f rs"
    using run_ok by blast
  have b: "\<forall>i < N. 22 \<le> age (rs ! i) \<and> age (rs ! i) \<le> 65
           \<and> 40000 \<le> salary (rs ! i) \<and> salary (rs ! i) \<le> 160000"
    using run_rows_nth [OF r] age_range salary_range by simp
  have lo: "\<exists>d' r. sample d' i p = Inr (r, p + 5) \<and> age r = 22 \<and> salary r = 40000"
    using sample_row_at row_at_low by blast
  have hi: "\<exists>d' r. sample d' i p = Inr (r, p + 5) \<and> age r = 65 \<and> salary r = 160000"
    using sample_row_at row_at_high by blast
  from g r w b lo hi show ?thesis by blast
qed

theorem numeric_fields_in_range_witness:
  "\<exists>f rs. generate (\<lambda>k. 7 * k + 3) (\<lambda>k. False) 2 ''old'' = (Inr (), 5 * 2, f)
     \<and> run_rows (\<lambda>k. 7 * k + 3) 2 rs \<and> wrote f rs
     \<and> (\<forall>i < 2. 22 \<le> age (rs ! i) \<and> age (rs ! i) \<le> 65
           \<and> 40000 \<le> salary (rs ! i) \<and> salary (rs ! i) \<le> 160000)
     \<and> (\<exists>d' r. sample d' 1 5 = Inr (r, 5 + 5) \<and> age r = 22 \<and> salary r = 40000)
     \<and> (\<exists>d' r. sample d' 1 5 = Inr (r, 5 + 5) \<and> age r = 65 \<and> salary r = 160000)"
  by (rule numeric_fields_in_range [where fl = "\<lambda>k. False"]) simp

subsection \<open>The fields of a row\<close>

lemma name_row_at:
  "name (row_at d i p) = fname (row_at d i p) @ '' '' @ lname (row_at d i p)"
  by (simp add: row_at_def)

lemma email_row_at:
  "email (row_at d i p) =
     lower (fname (row_at d i p)) @ ''.'' @ lower (lname (row_at d i p)) @ py_str (int i)
       @ ''@company.com''"
  by (simp add: row_at_def)

lemma fname_row_at: "fname (row_at d i p) \<in> set first_names"
  by (simp add: row_at_def first_name_mem)

lemma lname_row_at: "lname (row_at d i p) \<in> set last_names"
  by (simp add: row_at_def last_name_mem)

lemma dept_row_at: "dept (row_at d i p) \<in> set depts"
  by (simp add: row_at_def dept_mem)

lemma first_names_no_space: "f \<in> set first_names \<Longrightarrow> CHR '' '' \<notin> set f"
  using first_names_letters letter_not_space by blast

lemma last_names_no_space: "f \<in> set last_names \<Longrightarrow> CHR '' '' \<notin> set f"
  using last_names_letters letter_not_space by blast

lemma distinct_tables: "distinct first_names \<and> distinct last_names \<and> distinct depts"
  by (simp add: first_names_def last_names_def depts_def)

lemma row_at_any:
  "fname (row_at (\<lambda>k. if k mod 5 = 0 then fa (k div 5) else if k mod 5 = 1 then la (k div 5)
        else da (k div 5)) j (5 * j)) = first_names ! (fa j mod 8)
   \<and> lname (row_at (\<lambda>k. if k mod 5 = 0 then fa (k div 5) else if k mod 5 = 1 then la (k div 5)
        else da (k div 5)) j (5 * j)) = last_names ! (la j mod 8)
   \<and> dept (row_at (\<lambda>k. if k mod 5 = 0 then fa (k div 5) else if k mod 5 = 1 then la (k div 5)
        else da (k div 5)) j (5 * j)) = depts ! (da j mod 7)"
proof -
  have "Suc (5 * j) div 5 = j" "Suc (5 * j) mod 5 = 1" "(5 * j + 4) div 5 = j"
    "(5 * j + 4) mod 5 = 4"
    by arith+
  then show ?thesis by (simp add: row_at_def)
qed

text \<open>
  C6: in a run where no file operation fails, the name of every row written is the chosen
  first name, one space, the chosen last name; the first name is an element of the table of
  8 first names and the last name an element of the table of 8 last names, neither contains
  a space, and the department is an element of the table of the 7 labels. The three choices
  of a row and the choices of different rows do not constrain each other: whatever table
  entries are prescribed for every row, there are draws that give exactly them.
\<close>

theorem name_and_department_from_tables:
  assumes "\<And>k. \<not> fl k"
  shows "\<exists>f rs. generate d fl N old = (Inr (), 5 * N, f) \<and> run_rows d N rs \<and> wrote f rs
     \<and> (\<forall>i < N. name (rs ! i) = fname (rs ! i) @ '' '' @ lname (rs ! i)
           \<and> fname (rs ! i) \<in> set first_names \<and> lname (rs ! i) \<in> set last_names
           \<and> CHR '' '' \<notin> set (fname (rs ! i)) \<and> CHR '' '' \<notin> set (lname (rs ! i))
           \<and> dept (rs ! i) \<in> set depts)
     \<and> length first_names = 8 \<and> distinct first_names
     \<and> length last_names = 8 \<and> distinct last_names
     \<and> depts = [''Engineering'', ''Sales'', ''Marketing'', ''HR'', ''Product'', ''Legal'',
          ''Support'']
     \<and> (\<exists>d'. \<forall>j. \<exists>r. sample d' j (5 * j) = Inr (r, 5 * j + 5)
           \<and> fname r = first_names ! (fa j mod 8) \<and> lname r = last_names ! (la j mod 8)
           \<and> dept r = depts ! (da j mod 7))"
proof -
  from assms obtain f rs where g: "generate d fl N old = (Inr (), 5 * N, f)"
    and r: "run_rows d N rs" and w: "wrote f rs"
    using run_ok by blast
  have b: "\<forall>i < N. name (rs ! i) = fname (rs ! i) @ '' '' @ lname (rs ! i)
           \<and> fname (rs ! i) \<in> set first_names \<and> lname (rs ! i) \<in> set last_names
           \<and> CHR '' '' \<notin> set (fname (rs ! i)) \<and> CHR '' '' \<notin> set (lname (rs ! i))
           \<and> dept (rs ! i) \<in> set depts"
    using run_rows_nth [OF r]
    by (simp add: name_row_at fname_row_at lname_row_at dept_row_at
        first_names_no_space last_names_no_space)
  have t: "length first_names = 8 \<and> distinct first_names
     \<and> length last_names = 8 \<and> distinct last_names
     \<and> depts = [''Engineering'', ''Sales'', ''Marketing'', ''HR'', ''Product'', ''Legal'',
          ''Support'']"
    using distinct_tables by (simp add: length_first_names length_last_names depts_def)
  have a: "\<exists>d'. \<forall>j. \<exists>r. sample d' j (5 * j) = Inr (r, 5 * j + 5)
           \<and> fname r = first_names ! (fa j mod 8) \<and> lname r = last_names ! (la j mod 8)
           \<and> dept r = depts ! (da j mod 7)"
    using sample_row_at row_at_any [of fa la da] by blast
  from g r w b t a show ?thesis by blast
qed

theorem name_and_department_from_tables_witness:
  "\<exists>f rs. generate (\<lambda>k. 3 * k + 1) (\<lambda>k. False) 3 ''old'' = (Inr (), 5 * 3, f)
     \<and> run_rows (\<lambda>k. 3 * k + 1) 3 rs \<and> wrote f rs
     \<and> (\<forall>i < 3. name (rs ! i) = fname (rs ! i) @ '' '' @ lname (rs ! i)
           \<and> fname (rs ! i) \<in> set first_names \<and> lname (rs ! i) \<in> set last_names
           \<and> CHR '' '' \<notin> set (fname (rs ! i)) \<and> CHR '' '' \<notin> set (lname (rs ! i))
           \<and> dept (rs ! i) \<in> set depts)
     \<and> length first_names = 8 \<and> distinct first_names
     \<and> length last_names = 8 \<and> distinct last_names
     \<and> depts = [''Engineering'', ''Sales'', ''Marketing'', ''HR'', ''Product'', ''Legal'',
          ''Support'']
     \<and> (\<exists>d'. \<forall>j. \<exists>r. sample d' j (5 * j) = Inr (r, 5 * j + 5)
           \<and> fname r = first_names ! ((\<lambda>j. j) j mod 8)
           \<and> lname r = last_names ! ((\<lambda>j. 7) j mod 8)
           \<and> dept r = depts ! ((\<lambda>j. 2 * j) j mod 7))"
  by (rule name_and_department_from_tables [where fl = "\<lambda>k. False"]) simp

subsection \<open>Counting characters\<close>

lemma count_char_append: "count_char c (a @ b) = count_char c a + count_char c b"
  by (simp add: count_char_def)

lemma count_char_absent: "c \<notin> set s \<Longrightarrow> count_char c s = 0"
  by (induction s) (auto simp: count_char_def)

lemma count_char_Cons: "count_char c (x # s) = (if x = c then 1 else 0) + count_char c s"
  by (simp add: count_char_def)

lemma digits_not_dot: "\<forall>c \<in> set digit_chars. c \<noteq> CHR ''.''"
  by code_simp

lemma digits10_no_dot: "CHR ''.'' \<notin> set (digits10 n)"
  using digits10_digits [of "CHR ''.''" n] digits_not_dot by (auto simp: is_digit_def)

lemma lower_first_names_lower: "\<forall>f \<in> set first_names. \<forall>c \<in> set (lower f). is_lower c"
  by code_simp

lemma lower_last_names_lower: "\<forall>f \<in> set last_names. \<forall>c \<in> set (lower f). is_lower c"
  by code_simp

lemma lower_fname_no_dot: "CHR ''.'' \<notin> set (lower (fname (row_at d i p)))"
  using lower_first_names_letters fname_row_at letter_not_dot by blast

lemma lower_lname_no_dot: "CHR ''.'' \<notin> set (lower (lname (row_at d i p)))"
  using lower_last_names_letters lname_row_at letter_not_dot by blast

lemma lower_fname_no_digit: "c \<in> set (lower (fname (row_at d i p))) \<Longrightarrow> \<not> is_digit c"
  using lower_first_names_letters fname_row_at letter_not_digit by blast

lemma lower_lname_no_digit: "c \<in> set (lower (lname (row_at d i p))) \<Longrightarrow> \<not> is_digit c"
  using lower_last_names_letters lname_row_at letter_not_digit by blast

lemma lower_names_lower:
  "c \<in> set (lower (fname (row_at d i p)) @ lower (lname (row_at d i p))) \<Longrightarrow> is_lower c"
  using lower_first_names_lower lower_last_names_lower fname_row_at [of d i p]
    lname_row_at [of d i p] by auto

lemma local_part_dots:
  "count_char CHR ''.'' (lower (fname (row_at d i p)) @ ''.'' @ lower (lname (row_at d i p))
      @ py_str (int i)) = 1"
  by (simp add: count_char_append count_char_absent lower_fname_no_dot lower_lname_no_dot
      py_str_nat digits10_no_dot count_char_Cons)

lemma domain_dots: "count_char CHR ''.'' ''@company.com'' = 1"
  by (simp add: count_char_def)

lemma email_dots: "count_char CHR ''.'' (email (row_at d i p)) = 2"
proof -
  have "email (row_at d i p) =
      (lower (fname (row_at d i p)) @ ''.'' @ lower (lname (row_at d i p)) @ py_str (int i))
        @ ''@company.com''"
    by (simp add: email_row_at)
  then have "count_char CHR ''.'' (email (row_at d i p)) =
      count_char CHR ''.'' (lower (fname (row_at d i p)) @ ''.'' @ lower (lname (row_at d i p))
        @ py_str (int i)) + count_char CHR ''.'' ''@company.com''"
    by (simp only: count_char_append)
  then show ?thesis by (simp only: local_part_dots domain_dots)
qed

lemma email_suffix: "\<exists>pre. email (row_at d i p) = pre @ py_str (int i) @ ''@company.com''"
proof
  show "email (row_at d i p) =
      (lower (fname (row_at d i p)) @ ''.'' @ lower (lname (row_at d i p)))
        @ py_str (int i) @ ''@company.com''"
    by (simp add: email_row_at)
qed

subsection \<open>What \<open>lower\<close> and \<open>str\<close> return\<close>

lemma lower_first_names:
  "map lower first_names =
     [''james'', ''mary'', ''robert'', ''patricia'', ''john'', ''jennifer'', ''michael'',
      ''linda'']"
  by code_simp

lemma lower_last_names:
  "map lower last_names =
     [''smith'', ''johnson'', ''williams'', ''brown'', ''jones'', ''garcia'', ''miller'',
      ''davis'']"
  by code_simp

lemma lower_char_code:
  "(of_char (lower_char c) :: nat) =
     (if 65 \<le> (of_char c :: nat) \<and> (of_char c :: nat) \<le> 90 then of_char c + 32 else of_char c)"
  by (simp add: lower_char_def Let_def)

lemma lower_pointwise:
  "length (lower s) = length s
   \<and> (\<forall>k < length s. (of_char (lower s ! k) :: nat) =
         (if 65 \<le> (of_char (s ! k) :: nat) \<and> (of_char (s ! k) :: nat) \<le> 90
          then of_char (s ! k) + 32 else of_char (s ! k)))"
  by (simp add: lower_def lower_char_code)

lemma digit_codes: "\<forall>k \<in> set [0..<10]. (of_char (digit_char k) :: nat) = 48 + k"
  by code_simp

lemma digit_code: "k < 10 \<Longrightarrow> (of_char (digit_char k) :: nat) = 48 + k"
  using digit_codes by simp

lemma digit_chars_codes:
  "\<forall>c \<in> set digit_chars. 48 \<le> (of_char c :: nat) \<and> (of_char c :: nat) \<le> 57"
  by code_simp

lemma digits10_codes:
  "c \<in> set (digits10 n) \<Longrightarrow> 48 \<le> (of_char c :: nat) \<and> (of_char c :: nat) \<le> 57"
  using digits10_digits [of c n] digit_chars_codes by (auto simp: is_digit_def)

lemma decimal_value_snoc:
  "decimal_value (s @ [c]) = 10 * decimal_value s + ((of_char c :: nat) - 48)"
  by (simp add: decimal_value_def)

lemma decimal_value_digits10: "decimal_value (digits10 n) = n"
proof (induction n rule: digits10.induct)
  case (1 n)
  show ?case
  proof (cases "n < 10")
    case True
    then have "digits10 n = [digit_char n]" by (rule digits10_small)
    with True show ?thesis
      by (simp add: decimal_value_def digit_code)
  next
    case False
    then have e: "digits10 n = digits10 (n div 10) @ [digit_char (n mod 10)]"
      by (rule digits10_big)
    have "n mod 10 < 10" by simp
    then have dv: "(of_char (digit_char (n mod 10)) :: nat) = 48 + n mod 10"
      by (rule digit_code)
    from False have ih: "decimal_value (digits10 (n div 10)) = n div 10"
      by (rule "1.IH")
    show ?thesis
      unfolding e decimal_value_snoc ih dv by simp
  qed
qed

lemma digits10_leading_zero: "hd (digits10 n) = CHR ''0'' \<Longrightarrow> n = 0"
proof (induction n rule: digits10.induct)
  case (1 n)
  show ?case
  proof (cases "n < 10")
    case True
    then have "digits10 n = [digit_char n]" by (rule digits10_small)
    with "1.prems" have "digit_char n = CHR ''0''" by simp
    then have "(of_char (digit_char n) :: nat) = 48" by simp
    with True show ?thesis by (simp add: digit_code)
  next
    case False
    then have e: "digits10 n = digits10 (n div 10) @ [digit_char (n mod 10)]"
      by (rule digits10_big)
    from "1.prems" have "hd (digits10 (n div 10)) = CHR ''0''"
      unfolding e by (simp add: digits10_nonempty)
    with False have "n div 10 = 0" by (rule "1.IH")
    with False show ?thesis by simp
  qed
qed

lemma lower_length: "length (lower s) = length s"
  by (simp add: lower_def)

lemma lower_codes:
  "\<forall>k < length s. (of_char (lower s ! k) :: nat) =
     (if 65 \<le> (of_char (s ! k) :: nat) \<and> (of_char (s ! k) :: nat) \<le> 90
      then of_char (s ! k) + 32 else of_char (s ! k))"
  using lower_pointwise [of s] by (rule conjunct2)

lemma py_str_nonempty: "py_str (int i) \<noteq> []"
  unfolding py_str_nat by (rule digits10_nonempty)

lemma py_str_codes:
  "\<forall>c \<in> set (py_str (int i)). 48 \<le> (of_char c :: nat) \<and> (of_char c :: nat) \<le> 57"
  unfolding py_str_nat using digits10_codes by blast

lemma py_str_value: "decimal_value (py_str (int i)) = i"
  unfolding py_str_nat by (rule decimal_value_digits10)

lemma py_str_leading: "hd (py_str (int i)) = CHR ''0'' \<longrightarrow> i = 0"
  unfolding py_str_nat using digits10_leading_zero by blast

lemma py_str_examples:
  "py_str 0 = ''0''" "py_str 7 = ''7''" "py_str 10 = ''10''" "py_str 405 = ''405''"
  "py_str 99999 = ''99999''"
  by (simp_all add: py_str_def digits10_small digits10_big digit_char_def digit_chars_def)

lemma lower_names_lower_all:
  "\<forall>c \<in> set (lower (fname (row_at d i p)) @ lower (lname (row_at d i p))). is_lower c"
  using lower_names_lower by blast

lemma email_row_facts:
  "email (row_at d i p) =
             lower (fname (row_at d i p)) @ ''.'' @ lower (lname (row_at d i p)) @ py_str (int i)
               @ ''@company.com''
           \<and> name (row_at d i p) = fname (row_at d i p) @ '' '' @ lname (row_at d i p)
           \<and> fname (row_at d i p) \<in> set first_names \<and> lname (row_at d i p) \<in> set last_names
           \<and> length (lower (fname (row_at d i p))) = length (fname (row_at d i p))
           \<and> (\<forall>k < length (fname (row_at d i p)). (of_char (lower (fname (row_at d i p)) ! k) :: nat) =
                 (if 65 \<le> (of_char (fname (row_at d i p) ! k) :: nat)
                     \<and> (of_char (fname (row_at d i p) ! k) :: nat) \<le> 90
                  then of_char (fname (row_at d i p) ! k) + 32 else of_char (fname (row_at d i p) ! k)))
           \<and> length (lower (lname (row_at d i p))) = length (lname (row_at d i p))
           \<and> (\<forall>k < length (lname (row_at d i p)). (of_char (lower (lname (row_at d i p)) ! k) :: nat) =
                 (if 65 \<le> (of_char (lname (row_at d i p) ! k) :: nat)
                     \<and> (of_char (lname (row_at d i p) ! k) :: nat) \<le> 90
                  then of_char (lname (row_at d i p) ! k) + 32 else of_char (lname (row_at d i p) ! k)))
           \<and> py_str (int i) \<noteq> []
           \<and> (\<forall>c \<in> set (py_str (int i)). 48 \<le> (of_char c :: nat) \<and> (of_char c :: nat) \<le> 57)
           \<and> decimal_value (py_str (int i)) = i
           \<and> (hd (py_str (int i)) = CHR ''0'' \<longrightarrow> i = 0)
           \<and> (\<exists>pre. email (row_at d i p) = pre @ py_str (int i) @ ''@company.com'')
           \<and> (\<forall>c \<in> set (lower (fname (row_at d i p)) @ lower (lname (row_at d i p))). is_lower c)
           \<and> count_char CHR ''.'' (lower (fname (row_at d i p)) @ ''.'' @ lower (lname (row_at d i p))
                @ py_str (int i)) = 1
           \<and> count_char CHR ''.'' (email (row_at d i p)) = 2"
  by (intro conjI)
    (rule email_row_at name_row_at fname_row_at lname_row_at lower_length lower_codes
      py_str_nonempty py_str_codes py_str_value py_str_leading email_suffix
      lower_names_lower_all local_part_dots email_dots)+

text \<open>
  C3: in a run where no file operation fails, the email of the row of index \<open>i\<close> is the
  lower-cased first name, a dot, the lower-cased last name, the decimal numeral of \<open>i\<close> and
  \<open>@company.com\<close>, where the two names are the ones that make up the name field of the row.
  Lower-casing keeps the length of a name and replaces every capital letter \<open>A\<close> to \<open>Z\<close> by
  its small letter, leaving the other characters as they are; on the two tables it gives
  \<open>james\<close>, \<open>mary\<close>, ... and \<open>smith\<close>, \<open>johnson\<close>, ... The numeral of \<open>i\<close> is the non-empty
  string of the ASCII digits \<open>0\<close> to \<open>9\<close> whose value in base ten is \<open>i\<close>, without a leading
  zero unless \<open>i\<close> is 0. So the email ends with the numeral of \<open>i\<close> followed by
  \<open>@company.com\<close>; the two name segments consist of small letters only, and the part before
  \<open>@company.com\<close> holds exactly one dot, the one between them. The only other dot of the
  field is the one of the fixed domain \<open>company.com\<close>.
\<close>

theorem email_format:
  assumes "\<And>k. \<not> fl k"
  shows "\<exists>f rs. generate d fl N old = (Inr (), 5 * N, f) \<and> run_rows d N rs \<and> wrote f rs
     \<and> map lower first_names =
           [''james'', ''mary'', ''robert'', ''patricia'', ''john'', ''jennifer'', ''michael'',
            ''linda'']
     \<and> map lower last_names =
           [''smith'', ''johnson'', ''williams'', ''brown'', ''jones'', ''garcia'', ''miller'',
            ''davis'']
     \<and> py_str 0 = ''0'' \<and> py_str 7 = ''7'' \<and> py_str 10 = ''10'' \<and> py_str 405 = ''405''
     \<and> py_str 99999 = ''99999''
     \<and> (\<forall>i < N. email (rs ! i) =
             lower (fname (rs ! i)) @ ''.'' @ lower (lname (rs ! i)) @ py_str (int i)
               @ ''@company.com''
           \<and> name (rs ! i) = fname (rs ! i) @ '' '' @ lname (rs ! i)
           \<and> fname (rs ! i) \<in> set first_names \<and> lname (rs ! i) \<in> set last_names
           \<and> length (lower (fname (rs ! i))) = length (fname (rs ! i))
           \<and> (\<forall>k < length (fname (rs ! i)). (of_char (lower (fname (rs ! i)) ! k) :: nat) =
                 (if 65 \<le> (of_char (fname (rs ! i) ! k) :: nat)
                     \<and> (of_char (fname (rs ! i) ! k) :: nat) \<le> 90
                  then of_char (fname (rs ! i) ! k) + 32 else of_char (fname (rs ! i) ! k)))
           \<and> length (lower (lname (rs ! i))) = length (lname (rs ! i))
           \<and> (\<forall>k < length (lname (rs ! i)). (of_char (lower (lname (rs ! i)) ! k) :: nat) =
                 (if 65 \<le> (of_char (lname (rs ! i) ! k) :: nat)
                     \<and> (of_char (lname (rs ! i) ! k) :: nat) \<le> 90
                  then of_char (lname (rs ! i) ! k) + 32 else of_char (lname (rs ! i) ! k)))
           \<and> py_str (int i) \<noteq> []
           \<and> (\<forall>c \<in> set (py_str (int i)). 48 \<le> (of_char c :: nat) \<and> (of_char c :: nat) \<le> 57)
           \<and> decimal_value (py_str (int i)) = i
           \<and> (hd (py_str (int i)) = CHR ''0'' \<longrightarrow> i = 0)
           \<and> (\<exists>pre. email (rs ! i) = pre @ py_str (int i) @ ''@company.com'')
           \<and> (\<forall>c \<in> set (lower (fname (rs ! i)) @ lower (lname (rs ! i))). is_lower c)
           \<and> count_char CHR ''.'' (lower (fname (rs ! i)) @ ''.'' @ lower (lname (rs ! i))
                @ py_str (int i)) = 1
           \<and> count_char CHR ''.'' (email (rs ! i)) = 2)"
proof -
  from assms obtain f rs where g: "generate d fl N old = (Inr (), 5 * N, f)"
    and r: "run_rows d N rs" and w: "wrote f rs"
    using run_ok by blast
  have b: "\<forall>i < N. email (rs ! i) =
             lower (fname (rs ! i)) @ ''.'' @ lower (lname (rs ! i)) @ py_str (int i)
               @ ''@company.com''
           \<and> name (rs ! i) = fname (rs ! i) @ '' '' @ lname (rs ! i)
           \<and> fname (rs ! i) \<in> set first_names \<and> lname (rs ! i) \<in> set last_names
           \<and> length (lower (fname (rs ! i))) = length (fname (rs ! i))
           \<and> (\<forall>k < length (fname (rs ! i)). (of_char (lower (fname (rs ! i)) ! k) :: nat) =
                 (if 65 \<le> (of_char (fname (rs ! i) ! k) :: nat)
                     \<and> (of_char (fname (rs ! i) ! k) :: nat) \<le> 90
                  then of_char (fname (rs ! i) ! k) + 32 else of_char (fname (rs ! i) ! k)))
           \<and> length (lower (lname (rs ! i))) = length (lname (rs ! i))
           \<and> (\<forall>k < length (lname (rs ! i)). (of_char (lower (lname (rs ! i)) ! k) :: nat) =
                 (if 65 \<le> (of_char (lname (rs ! i) ! k) :: nat)
                     \<and> (of_char (lname (rs ! i) ! k) :: nat) \<le> 90
                  then of_char (lname (rs ! i) ! k) + 32 else of_char (lname (rs ! i) ! k)))
           \<and> py_str (int i) \<noteq> []
           \<and> (\<forall>c \<in> set (py_str (int i)). 48 \<le> (of_char c :: nat) \<and> (of_char c :: nat) \<le> 57)
           \<and> decimal_value (py_str (int i)) = i
           \<and> (hd (py_str (int i)) = CHR ''0'' \<longrightarrow> i = 0)
           \<and> (\<exists>pre. email (rs ! i) = pre @ py_str (int i) @ ''@company.com'')
           \<and> (\<forall>c \<in> set (lower (fname (rs ! i)) @ lower (lname (rs ! i))). is_lower c)
           \<and> count_char CHR ''.'' (lower (fname (rs ! i)) @ ''.'' @ lower (lname (rs ! i))
                @ py_str (int i)) = 1
           \<and> count_char CHR ''.'' (email (rs ! i)) = 2"
    (is "\<forall>i < N. ?B i")
  proof (intro allI impI)
    fix i assume "i < N"
    then have e: "rs ! i = row_at d i (5 * i)" by (rule run_rows_nth [OF r])
    show "?B i" unfolding e by (rule email_row_facts)
  qed
  show ?thesis
    by (rule exI [where x = f], rule exI [where x = rs])
      (rule conjI [OF g conjI [OF r conjI [OF w conjI [OF lower_first_names
        conjI [OF lower_last_names conjI [OF py_str_examples(1) conjI [OF py_str_examples(2)
        conjI [OF py_str_examples(3) conjI [OF py_str_examples(4)
        conjI [OF py_str_examples(5) b]]]]]]]]]])
qed

theorem email_format_witness:
  "\<exists>f rs. generate (\<lambda>k. 3 * k + 1) (\<lambda>k. False) 12 ''old'' = (Inr (), 5 * 12, f) \<and> run_rows (\<lambda>k. 3 * k + 1) 12 rs \<and> wrote f rs
     \<and> map lower first_names =
           [''james'', ''mary'', ''robert'', ''patricia'', ''john'', ''jennifer'', ''michael'',
            ''linda'']
     \<and> map lower last_names =
           [''smith'', ''johnson'', ''williams'', ''brown'', ''jones'', ''garcia'', ''miller'',
            ''davis'']
     \<and> py_str 0 = ''0'' \<and> py_str 7 = ''7'' \<and> py_str 10 = ''10'' \<and> py_str 405 = ''405''
     \<and> py_str 99999 = ''99999''
     \<and> (\<forall>i < 12. email (rs ! i) =
             lower (fname (rs ! i)) @ ''.'' @ lower (lname (rs ! i)) @ py_str (int i)
               @ ''@company.com''
           \<and> name (rs ! i) = fname (rs ! i) @ '' '' @ lname (rs ! i)
           \<and> fname (rs ! i) \<in> set first_names \<and> lname (rs ! i) \<in> set last_names
           \<and> length (lower (fname (rs ! i))) = length (fname (rs ! i))
           \<and> (\<forall>k < length (fname (rs ! i)). (of_char (lower (fname (rs ! i)) ! k) :: nat) =
                 (if 65 \<le> (of_char (fname (rs ! i) ! k) :: nat)
                     \<and> (of_char (fname (rs ! i) ! k) :: nat) \<le> 90
                  then of_char (fname (rs ! i) ! k) + 32 else of_char (fname (rs ! i) ! k)))
           \<and> length (lower (lname (rs ! i))) = length (lname (rs ! i))
           \<and> (\<forall>k < length (lname (rs ! i)). (of_char (lower (lname (rs ! i)) ! k) :: nat) =
                 (if 65 \<le> (of_char (lname (rs ! i) ! k) :: nat)
                     \<and> (of_char (lname (rs ! i) ! k) :: nat) \<le> 90
                  then of_char (lname (rs ! i) ! k) + 32 else of_char (lname (rs ! i) ! k)))
           \<and> py_str (int i) \<noteq> []
           \<and> (\<forall>c \<in> set (py_str (int i)). 48 \<le> (of_char c :: nat) \<and> (of_char c :: nat) \<le> 57)
           \<and> decimal_value (py_str (int i)) = i
           \<and> (hd (py_str (int i)) = CHR ''0'' \<longrightarrow> i = 0)
           \<and> (\<exists>pre. email (rs ! i) = pre @ py_str (int i) @ ''@company.com'')
           \<and> (\<forall>c \<in> set (lower (fname (rs ! i)) @ lower (lname (rs ! i))). is_lower c)
           \<and> count_char CHR ''.'' (lower (fname (rs ! i)) @ ''.'' @ lower (lname (rs ! i))
                @ py_str (int i)) = 1
           \<and> count_char CHR ''.'' (email (rs ! i)) = 2)"
  by (rule email_format [where fl = "\<lambda>k. False"]) simp

subsection \<open>The index embedded in the email\<close>

lemma strip_non_digits:
  assumes "\<forall>c \<in> set a. \<not> is_digit c" "\<forall>c \<in> set n. is_digit c"
  shows "dropWhile (\<lambda>c. \<not> is_digit c) (a @ n) = n"
proof -
  have "dropWhile (\<lambda>c. \<not> is_digit c) (a @ n) = dropWhile (\<lambda>c. \<not> is_digit c) n"
    using assms(1) by (simp add: dropWhile_append2)
  also have "\<dots> = n" using assms(2) by (cases n) simp_all
  finally show ?thesis .
qed

lemma dot_not_digit: "\<not> is_digit CHR ''.''"
  using digits_not_dot by (auto simp: is_digit_def)

lemma local_names_no_digit:
  "\<forall>c \<in> set (lower (fname (row_at d i p)) @ ''.'' @ lower (lname (row_at d i p))).
     \<not> is_digit c"
  using lower_fname_no_digit [of _ d i p] lower_lname_no_digit [of _ d i p] dot_not_digit
  by auto

lemma email_index:
  "dropWhile (\<lambda>c. \<not> is_digit c) (take (length (email (row_at d i p)) - 12)
     (email (row_at d i p))) = digits10 i"
proof -
  let ?a = "lower (fname (row_at d i p)) @ ''.'' @ lower (lname (row_at d i p))"
  have "email (row_at d i p) = (?a @ digits10 i) @ ''@company.com''"
    by (simp add: email_row_at py_str_nat)
  then have "take (length (email (row_at d i p)) - 12) (email (row_at d i p)) = ?a @ digits10 i"
    by simp
  moreover have "dropWhile (\<lambda>c. \<not> is_digit c) (?a @ digits10 i) = digits10 i"
    using local_names_no_digit digits10_digits by (intro strip_non_digits) blast+
  ultimately show ?thesis by (simp only:)
qed

lemma email_inj:
  assumes "email (row_at d i p) = email (row_at d' j q)"
  shows "i = j"
proof -
  have "digits10 i = dropWhile (\<lambda>c. \<not> is_digit c) (take (length (email (row_at d i p)) - 12)
     (email (row_at d i p)))"
    by (rule email_index [symmetric])
  also have "\<dots> = dropWhile (\<lambda>c. \<not> is_digit c) (take (length (email (row_at d' j q)) - 12)
     (email (row_at d' j q)))"
    by (simp only: assms)
  also have "\<dots> = digits10 j" by (rule email_index)
  finally show ?thesis by (rule digits10_inj)
qed

text \<open>
  C4: in a run where no file operation fails, the emails of the rows written are pairwise
  distinct: two rows of different indices have different emails, whatever names the draws
  chose for them; and no lower-cased name segment of a row contains a decimal digit, so the
  digits of an email are those of its index.
\<close>

theorem emails_pairwise_distinct:
  assumes "\<And>k. \<not> fl k"
  shows "\<exists>f rs. generate d fl N old = (Inr (), 5 * N, f) \<and> run_rows d N rs \<and> wrote f rs
     \<and> distinct (map email rs)
     \<and> (\<forall>i < N. \<forall>j < N. i \<noteq> j \<longrightarrow> email (rs ! i) \<noteq> email (rs ! j))
     \<and> (\<forall>i < N. \<forall>c \<in> set (lower (fname (rs ! i)) @ lower (lname (rs ! i))). \<not> is_digit c)"
proof -
  from assms obtain f rs where g: "generate d fl N old = (Inr (), 5 * N, f)"
    and r: "run_rows d N rs" and w: "wrote f rs"
    using run_ok by blast
  have len: "length rs = N" using r by (simp add: run_rows_def)
  have p: "\<forall>i < N. \<forall>j < N. i \<noteq> j \<longrightarrow> email (rs ! i) \<noteq> email (rs ! j)"
  proof (intro allI impI)
    fix i j assume "i < N" "j < N" "i \<noteq> j"
    then show "email (rs ! i) \<noteq> email (rs ! j)"
      using run_rows_nth [OF r, of i] run_rows_nth [OF r, of j] email_inj [of d i "5 * i" d j "5 * j"]
      by auto
  qed
  have di: "distinct (map email rs)"
    using p len by (simp add: distinct_conv_nth)
  have nd: "\<forall>i < N. \<forall>c \<in> set (lower (fname (rs ! i)) @ lower (lname (rs ! i))). \<not> is_digit c"
    using run_rows_nth [OF r] lower_fname_no_digit lower_lname_no_digit by auto
  from g r w di p nd show ?thesis by blast
qed

theorem emails_pairwise_distinct_witness:
  "\<exists>f rs. generate (\<lambda>k. 0) (\<lambda>k. False) 11 ''old'' = (Inr (), 5 * 11, f)
     \<and> run_rows (\<lambda>k. 0) 11 rs \<and> wrote f rs
     \<and> distinct (map email rs)
     \<and> (\<forall>i < 11. \<forall>j < 11. i \<noteq> j \<longrightarrow> email (rs ! i) \<noteq> email (rs ! j))
     \<and> (\<forall>i < 11. \<forall>c \<in> set (lower (fname (rs ! i)) @ lower (lname (rs ! i))). \<not> is_digit c)"
  by (rule emails_pairwise_distinct [where fl = "\<lambda>k. False"]) simp

subsection \<open>Records and lines\<close>

lemma fields_of_row: "fields_of r = [name r, email r, py_str (age r), py_str (salary r), dept r]"
  by (simp add: fields_of_def row_cells_def)

lemma field_plain: "s \<in> set (fields_of (row_at d i p)) \<Longrightarrow> c \<in> set s \<Longrightarrow> plain c"
  using name_plain email_plain age_plain salary_plain dept_plain
  by (auto simp: fields_of_row)

lemma record_join:
  "csv_record (row_cells (row_at d i p)) =
     join [delimiter] (fields_of (row_at d i p)) @ lineterminator"
  by (simp add: row_record fields_of_row delimiter_def lineterminator_def)

lemma fields_unquoted: "map csv_field (row_cells (row_at d i p)) = fields_of (row_at d i p)"
  unfolding fields_of_def row_cells_def
  by (simp add: csv_field_plain name_plain email_plain age_plain salary_plain dept_plain)

lemma join_chars: "c \<in> set (join sep xs) \<Longrightarrow> c \<in> set sep \<or> (\<exists>x \<in> set xs. c \<in> set x)"
  by (induction sep xs rule: join.induct) auto

lemma delimiter_no_break: "delimiter \<noteq> CR \<and> delimiter \<noteq> LF \<and> CR \<noteq> LF"
  by (simp add: delimiter_def CR_def LF_def)

lemma body_no_break:
  "CR \<notin> set (join [delimiter] (fields_of (row_at d i p)))
   \<and> LF \<notin> set (join [delimiter] (fields_of (row_at d i p)))"
proof -
  have "c \<noteq> CR \<and> c \<noteq> LF" if "c \<in> set (join [delimiter] (fields_of (row_at d i p)))" for c
  proof -
    from that have "c = delimiter \<or> (\<exists>x \<in> set (fields_of (row_at d i p)). c \<in> set x)"
      using join_chars [of c "[delimiter]"] by simp
    then show ?thesis
      using delimiter_no_break field_plain [of _ d i p c] by (auto simp: plain_def)
  qed
  then show ?thesis by blast
qed

lemma header_join: "header_text = join [delimiter] (map cell_text header)"
  by (simp add: header_text_def header_def delimiter_def)

lemma header_no_break: "CR \<notin> set header_text \<and> LF \<notin> set header_text"
  by (simp add: header_text_def CR_def LF_def)

lemma header_fields_plain: "\<forall>s \<in> set (map cell_text header). \<forall>c \<in> set s. plain c"
  by code_simp

lemma header_unquoted: "map csv_field header = map cell_text header"
  using header_fields_plain by (simp add: csv_field_plain)

lemma line_count_append: "line_count (a @ b) = line_count a + line_count b"
  by (simp add: line_count_def)

lemma line_count_terminated: "LF \<notin> set l \<Longrightarrow> line_count (l @ lineterminator) = 1"
proof -
  assume "LF \<notin> set l"
  then have "filter (\<lambda>c. c = LF) l = []" by (induction l) auto
  then show ?thesis
    using delimiter_no_break by (simp add: line_count_def lineterminator_def)
qed

lemma line_count_lines:
  "\<forall>l \<in> set ls. LF \<notin> set l \<Longrightarrow>
   line_count (concat (map (\<lambda>l. l @ lineterminator) ls)) = length ls"
proof (induction ls)
  case Nil
  then show ?case by (simp add: line_count_def)
next
  case (Cons l ls)
  then have "line_count (l @ lineterminator) = 1"
    and "line_count (concat (map (\<lambda>l. l @ lineterminator) ls)) = length ls"
    by (simp_all add: line_count_terminated)
  then show ?case by (simp add: line_count_append)
qed

lemma file_lines_length: "length (file_lines rs) = length rs + 1"
  by (simp add: file_lines_def)

lemma file_lines_no_break:
  assumes "run_rows d N rs" and "l \<in> set (file_lines rs)"
  shows "CR \<notin> set l \<and> LF \<notin> set l"
proof (cases "l = header_text")
  case True
  then show ?thesis using header_no_break by simp
next
  case False
  with assms(2) obtain r where "r \<in> set rs" and l: "l = join [delimiter] (fields_of r)"
    by (auto simp: file_lines_def)
  then obtain i where "i < length rs" and "r = rs ! i"
    by (auto simp: in_set_conv_nth)
  with assms(1) have "r = row_at d i (5 * i)"
    by (simp add: run_rows_def sample_row_at)
  then show ?thesis using body_no_break l by simp
qed

lemma wrote_lines:
  assumes "run_rows d N rs" and "wrote f rs"
  shows "content f = concat (map (\<lambda>l. l @ lineterminator) (file_lines rs))"
proof -
  have "map (\<lambda>r. csv_record (row_cells r)) rs =
      map (\<lambda>r. join [delimiter] (fields_of r) @ lineterminator) rs"
  proof (rule nth_equalityI)
    show "length (map (\<lambda>r. csv_record (row_cells r)) rs) =
        length (map (\<lambda>r. join [delimiter] (fields_of r) @ lineterminator) rs)"
      by simp
  next
    fix i assume "i < length (map (\<lambda>r. csv_record (row_cells r)) rs)"
    then have i: "i < length rs" by simp
    with assms(1) have "rs ! i = row_at d i (5 * i)"
      by (simp add: run_rows_def sample_row_at)
    with i show "map (\<lambda>r. csv_record (row_cells r)) rs ! i =
        map (\<lambda>r. join [delimiter] (fields_of r) @ lineterminator) rs ! i"
      by (simp add: record_join)
  qed
  with assms(2) show ?thesis
    by (simp add: wrote_def file_lines_def header_record lineterminator_def comp_def)
qed

lemma run_lines:
  assumes "\<And>k. \<not> fl k"
  shows "\<exists>f rs. generate d fl N old = (Inr (), 5 * N, f) \<and> run_rows d N rs \<and> wrote f rs
     \<and> content f = concat (map (\<lambda>l. l @ lineterminator) (file_lines rs))
     \<and> length (file_lines rs) = N + 1
     \<and> (\<forall>l \<in> set (file_lines rs). CR \<notin> set l \<and> LF \<notin> set l)
     \<and> line_count (content f) = N + 1"
proof -
  from assms obtain f rs where g: "generate d fl N old = (Inr (), 5 * N, f)"
    and r: "run_rows d N rs" and w: "wrote f rs"
    using run_ok by blast
  have c: "content f = concat (map (\<lambda>l. l @ lineterminator) (file_lines rs))"
    using r w by (rule wrote_lines)
  have n: "length (file_lines rs) = N + 1"
    using r by (simp add: file_lines_length run_rows_def)
  have b: "\<forall>l \<in> set (file_lines rs). CR \<notin> set l \<and> LF \<notin> set l"
    using file_lines_no_break [OF r] by blast
  then have "line_count (concat (map (\<lambda>l. l @ lineterminator) (file_lines rs))) =
      length (file_lines rs)"
    by (intro line_count_lines) blast
  with c n have lc: "line_count (content f) = N + 1" by simp
  from g r w c n b lc show ?thesis by blast
qed

text \<open>
  C1: a run for \<open>range(N)\<close> in which no file operation fails leaves a file of exactly
  \<open>N + 1\<close> lines, each ended by the line terminator and none containing a line break: the
  header line, then one line per sampled row, in order; the file holds \<open>N + 1\<close> line feeds.
  For \<open>N = 0\<close> the file is the header line alone. The script is the run for
  \<open>N = 100000\<close>: it samples 100000 rows and leaves a file of 100001 lines.
\<close>

theorem header_and_N_rows:
  assumes "\<And>k. \<not> fl k"
  shows "(\<exists>f rs. generate d fl N old = (Inr (), 5 * N, f) \<and> run_rows d N rs \<and> wrote f rs
       \<and> content f = concat (map (\<lambda>l. l @ lineterminator) (file_lines rs))
       \<and> length (file_lines rs) = N + 1 \<and> hd (file_lines rs) = header_text
       \<and> (\<forall>l \<in> set (file_lines rs). CR \<notin> set l \<and> LF \<notin> set l)
       \<and> line_count (content f) = N + 1)
     \<and> (\<exists>f. generate d fl 0 old = (Inr (), 0, f)
           \<and> content f = header_text @ lineterminator)
     \<and> (\<exists>f rs. script d fl old = (Inr (), 500000, f) \<and> run_rows d 100000 rs
           \<and> wrote f rs \<and> length rs = 100000
           \<and> content f = concat (map (\<lambda>l. l @ lineterminator) (file_lines rs))
           \<and> length (file_lines rs) = 100001 \<and> line_count (content f) = 100001)"
proof (intro conjI)
  show "\<exists>f rs. generate d fl N old = (Inr (), 5 * N, f) \<and> run_rows d N rs \<and> wrote f rs
       \<and> content f = concat (map (\<lambda>l. l @ lineterminator) (file_lines rs))
       \<and> length (file_lines rs) = N + 1 \<and> hd (file_lines rs) = header_text
       \<and> (\<forall>l \<in> set (file_lines rs). CR \<notin> set l \<and> LF \<notin> set l)
       \<and> line_count (content f) = N + 1"
  proof -
    have "hd (file_lines rs) = header_text" for rs by (simp add: file_lines_def)
    with run_lines [where fl = fl and d = d and N = N and old = old, OF assms] show ?thesis by blast
  qed
next
  from run_lines [where fl = fl and d = d and N = 0 and old = old, OF assms]
  obtain f rs where g: "generate d fl 0 old = (Inr (), 5 * 0, f)" and r: "run_rows d 0 rs"
    and c: "content f = concat (map (\<lambda>l. l @ lineterminator) (file_lines rs))"
    by blast
  from r have "rs = []" by (simp add: run_rows_def)
  with c have "content f = header_text @ lineterminator" by (simp add: file_lines_def)
  with g show "\<exists>f. generate d fl 0 old = (Inr (), 0, f)
      \<and> content f = header_text @ lineterminator"
    by simp
next
  from run_lines [where fl = fl and d = d and N = record_count and old = old, OF assms]
  obtain f rs where g: "generate d fl record_count old = (Inr (), 5 * record_count, f)"
    and r: "run_rows d record_count rs" and w: "wrote f rs"
    and c: "content f = concat (map (\<lambda>l. l @ lineterminator) (file_lines rs))"
    and n: "length (file_lines rs) = record_count + 1"
    and lc: "line_count (content f) = record_count + 1"
    by blast
  have five: "5 * record_count = 500000" and one: "record_count + 1 = 100001"
    by (simp_all add: record_count_def)
  from g have g': "script d fl old = (Inr (), 500000, f)"
    unfolding script_def five .
  from r have r': "run_rows d 100000 rs" unfolding record_count_def .
  from r have len: "length rs = 100000" unfolding run_rows_def record_count_def by (rule conjunct1)
  from n have n': "length (file_lines rs) = 100001" unfolding one .
  from lc have lc': "line_count (content f) = 100001" unfolding one .
  from g' r' w len c n' lc'
  show "\<exists>f rs. script d fl old = (Inr (), 500000, f) \<and> run_rows d 100000 rs
           \<and> wrote f rs \<and> length rs = 100000
           \<and> content f = concat (map (\<lambda>l. l @ lineterminator) (file_lines rs))
           \<and> length (file_lines rs) = 100001 \<and> line_count (content f) = 100001"
    by blast
qed

theorem header_and_N_rows_witness:
  "(\<exists>f rs. generate (\<lambda>k. k) (\<lambda>k. False) 3 ''old'' = (Inr (), 5 * 3, f)
       \<and> run_rows (\<lambda>k. k) 3 rs \<and> wrote f rs
       \<and> content f = concat (map (\<lambda>l. l @ lineterminator) (file_lines rs))
       \<and> length (file_lines rs) = 3 + 1 \<and> hd (file_lines rs) = header_text
       \<and> (\<forall>l \<in> set (file_lines rs). CR \<notin> set l \<and> LF \<notin> set l)
       \<and> line_count (content f) = 3 + 1)
     \<and> (\<exists>f. generate (\<lambda>k. k) (\<lambda>k. False) 0 ''old'' = (Inr (), 0, f)
           \<and> content f = header_text @ lineterminator)
     \<and> (\<exists>f rs. script (\<lambda>k. k) (\<lambda>k. False) ''old'' = (Inr (), 500000, f)
           \<and> run_rows (\<lambda>k. k) 100000 rs
           \<and> wrote f rs \<and> length rs = 100000
           \<and> content f = concat (map (\<lambda>l. l @ lineterminator) (file_lines rs))
           \<and> length (file_lines rs) = 100001 \<and> line_count (content f) = 100001)"
  by (rule header_and_N_rows [where fl = "\<lambda>k. False"]) simp

subsection \<open>The trace of a run without failure\<close>

lemma run_rows_unique: "run_rows d N rs \<Longrightarrow> rs = map (\<lambda>i. row_at d i (5 * i)) [0..<N]"
  by (rule nth_equalityI) (simp_all add: run_rows_def sample_row_at)

lemma run_full:
  assumes "\<And>k. \<not> fl k"
  shows "\<exists>f rs. generate d fl N old = (Inr (), 5 * N, f) \<and> run_rows d N rs \<and> wrote f rs
     \<and> handle f = Closed
     \<and> oplog f = OpOpen # OpWrite (csv_record header)
          # map (\<lambda>r. OpWrite (csv_record (row_cells r))) rs @ [OpClose]
     \<and> line_count (content f) = N + 1"
proof -
  from run_lines [where fl = fl and d = d and N = N and old = old, OF assms]
  obtain f rs where g: "generate d fl N old = (Inr (), 5 * N, f)"
    and r: "run_rows d N rs" and w: "wrote f rs" and lc: "line_count (content f) = N + 1"
    by blast
  have "generate d fl N old =
    (Inr (), 5 * N,
     \<lparr>handle = Closed,
      content = csv_record header @ concat (map (line_at d) [0..<N]),
      oplog = OpOpen # OpWrite (csv_record header) # map OpWrite (map (line_at d) [0..<N])
        @ [OpClose]\<rparr>)"
    using assms by (rule generate_ok)
  with g have f: "f = \<lparr>handle = Closed,
      content = csv_record header @ concat (map (line_at d) [0..<N]),
      oplog = OpOpen # OpWrite (csv_record header) # map OpWrite (map (line_at d) [0..<N])
        @ [OpClose]\<rparr>"
    by simp
  have h: "handle f = Closed" unfolding f by simp
  have "map OpWrite (map (line_at d) [0..<N]) = map (\<lambda>r. OpWrite (csv_record (row_cells r))) rs"
    unfolding run_rows_unique [OF r] by (simp add: line_at_def comp_def)
  then have t: "oplog f = OpOpen # OpWrite (csv_record header)
          # map (\<lambda>r. OpWrite (csv_record (row_cells r))) rs @ [OpClose]"
    unfolding f by simp
  from g r w h t lc show ?thesis by blast
qed

subsection \<open>Delimiters in a record\<close>

lemma field_unquoted:
  assumes "s \<in> set (fields_of (row_at d i p))"
  shows "\<not> needs_quote s
     \<and> (\<forall>c \<in> set s. c \<noteq> delimiter \<and> c \<noteq> quotechar \<and> c \<noteq> CR \<and> c \<noteq> LF)"
  using field_plain [OF assms] by (auto simp: needs_quote_plain plain_def)

lemma header_field_unquoted:
  assumes "s \<in> set (map cell_text header)"
  shows "\<not> needs_quote s
     \<and> (\<forall>c \<in> set s. c \<noteq> delimiter \<and> c \<noteq> quotechar \<and> c \<noteq> CR \<and> c \<noteq> LF)"
  using header_fields_plain assms by (auto simp: needs_quote_plain plain_def)

lemma header_record_join:
  "csv_record header = join [delimiter] (map cell_text header) @ lineterminator"
  by (simp add: header_record header_join [symmetric] lineterminator_def)

lemma header_commas: "count_char delimiter (csv_record header) = 4"
  by (simp add: header_record header_text_def count_char_def delimiter_def CR_def LF_def)

lemma record_commas: "count_char delimiter (csv_record (row_cells (row_at d i p))) = 4"
proof -
  let ?r = "row_at d i p"
  have m: "s \<in> set (fields_of ?r) \<Longrightarrow> count_char delimiter s = 0" for s
    using field_unquoted [of s d i p] by (intro count_char_absent) blast
  have "count_char delimiter (name ?r) = 0" "count_char delimiter (email ?r) = 0"
    "count_char delimiter (py_str (age ?r)) = 0" "count_char delimiter (py_str (salary ?r)) = 0"
    "count_char delimiter (dept ?r) = 0"
    by (rule m, simp add: fields_of_row)+
  moreover have "count_char delimiter lineterminator = 0"
    by (simp add: count_char_def lineterminator_def delimiter_def CR_def LF_def)
  ultimately show ?thesis
    by (simp add: record_join fields_of_row count_char_append count_char_Cons)
qed

lemma chars_of_syntax: "delimiter = CHR '','' \<and> quotechar = CHR 0x22"
  by (simp add: delimiter_def quotechar_def)

text \<open>
  C7: in a run where no file operation fails, the writer quotes no field of the header and
  no field of any row: the five field strings go into the record as they are, the record is
  their join with single commas followed by the line terminator, no field needs quoting, no
  field contains a comma, a double quote, a carriage return or a line feed, and the record
  holds exactly four commas.
\<close>

theorem records_are_plain_joins:
  assumes "\<And>k. \<not> fl k"
  shows "\<exists>f rs. generate d fl N old = (Inr (), 5 * N, f) \<and> run_rows d N rs \<and> wrote f rs
     \<and> delimiter = CHR '','' \<and> quotechar = CHR 0x22
     \<and> map csv_field header = map cell_text header \<and> length (map cell_text header) = 5
     \<and> csv_record header = join [delimiter] (map cell_text header) @ lineterminator
     \<and> (\<forall>s \<in> set (map cell_text header). \<not> needs_quote s
           \<and> (\<forall>c \<in> set s. c \<noteq> delimiter \<and> c \<noteq> quotechar \<and> c \<noteq> CR \<and> c \<noteq> LF))
     \<and> count_char delimiter (csv_record header) = 4
     \<and> (\<forall>i < N. map csv_field (row_cells (rs ! i)) = fields_of (rs ! i)
           \<and> length (fields_of (rs ! i)) = 5
           \<and> csv_record (row_cells (rs ! i)) =
               join [delimiter] (fields_of (rs ! i)) @ lineterminator
           \<and> (\<forall>s \<in> set (fields_of (rs ! i)). \<not> needs_quote s
                 \<and> (\<forall>c \<in> set s. c \<noteq> delimiter \<and> c \<noteq> quotechar \<and> c \<noteq> CR \<and> c \<noteq> LF))
           \<and> count_char delimiter (csv_record (row_cells (rs ! i))) = 4)"
proof -
  from assms obtain f rs where g: "generate d fl N old = (Inr (), 5 * N, f)"
    and r: "run_rows d N rs" and w: "wrote f rs"
    using run_ok by blast
  have h: "map csv_field header = map cell_text header \<and> length (map cell_text header) = 5
     \<and> csv_record header = join [delimiter] (map cell_text header) @ lineterminator
     \<and> (\<forall>s \<in> set (map cell_text header). \<not> needs_quote s
           \<and> (\<forall>c \<in> set s. c \<noteq> delimiter \<and> c \<noteq> quotechar \<and> c \<noteq> CR \<and> c \<noteq> LF))
     \<and> count_char delimiter (csv_record header) = 4"
    using header_unquoted header_record_join header_field_unquoted header_commas
    by (simp add: header_def)
  have b: "\<forall>i < N. map csv_field (row_cells (rs ! i)) = fields_of (rs ! i)
           \<and> length (fields_of (rs ! i)) = 5
           \<and> csv_record (row_cells (rs ! i)) =
               join [delimiter] (fields_of (rs ! i)) @ lineterminator
           \<and> (\<forall>s \<in> set (fields_of (rs ! i)). \<not> needs_quote s
                 \<and> (\<forall>c \<in> set s. c \<noteq> delimiter \<and> c \<noteq> quotechar \<and> c \<noteq> CR \<and> c \<noteq> LF))
           \<and> count_char delimiter (csv_record (row_cells (rs ! i))) = 4"
  proof (intro allI impI)
    fix i assume "i < N"
    then have e: "rs ! i = row_at d i (5 * i)" by (rule run_rows_nth [OF r])
    have "length (fields_of (row_at d i (5 * i))) = 5" by (simp add: fields_of_row)
    then show "map csv_field (row_cells (rs ! i)) = fields_of (rs ! i)
           \<and> length (fields_of (rs ! i)) = 5
           \<and> csv_record (row_cells (rs ! i)) =
               join [delimiter] (fields_of (rs ! i)) @ lineterminator
           \<and> (\<forall>s \<in> set (fields_of (rs ! i)). \<not> needs_quote s
                 \<and> (\<forall>c \<in> set s. c \<noteq> delimiter \<and> c \<noteq> quotechar \<and> c \<noteq> CR \<and> c \<noteq> LF))
           \<and> count_char delimiter (csv_record (row_cells (rs ! i))) = 4"
      unfolding e
      using fields_unquoted [of d i "5 * i"] record_join [of d i "5 * i"]
        field_unquoted [of _ d i "5 * i"] record_commas [of d i "5 * i"]
      by blast
  qed
  from g r w chars_of_syntax h b show ?thesis by blast
qed

theorem records_are_plain_joins_witness:
  "\<exists>f rs. generate (\<lambda>k. 5 * k + 2) (\<lambda>k. False) 4 ''old'' = (Inr (), 5 * 4, f)
     \<and> run_rows (\<lambda>k. 5 * k + 2) 4 rs \<and> wrote f rs
     \<and> delimiter = CHR '','' \<and> quotechar = CHR 0x22
     \<and> map csv_field header = map cell_text header \<and> length (map cell_text header) = 5
     \<and> csv_record header = join [delimiter] (map cell_text header) @ lineterminator
     \<and> (\<forall>s \<in> set (map cell_text header). \<not> needs_quote s
           \<and> (\<forall>c \<in> set s. c \<noteq> delimiter \<and> c \<noteq> quotechar \<and> c \<noteq> CR \<and> c \<noteq> LF))
     \<and> count_char delimiter (csv_record header) = 4
     \<and> (\<forall>i < 4. map csv_field (row_cells (rs ! i)) = fields_of (rs ! i)
           \<and> length (fields_of (rs ! i)) = 5
           \<and> csv_record (row_cells (rs ! i)) =
               join [delimiter] (fields_of (rs ! i)) @ lineterminator
           \<and> (\<forall>s \<in> set (fields_of (rs ! i)). \<not> needs_quote s
                 \<and> (\<forall>c \<in> set s. c \<noteq> delimiter \<and> c \<noteq> quotechar \<and> c \<noteq> CR \<and> c \<noteq> LF))
           \<and> count_char delimiter (csv_record (row_cells (rs ! i))) = 4)"
  by (rule records_are_plain_joins [where fl = "\<lambda>k. False"]) simp

subsection \<open>One record, one line\<close>

lemma record_one_line:
  "\<exists>l. csv_record (row_cells (row_at d i p)) = l @ [CR, LF] \<and> CR \<notin> set l \<and> LF \<notin> set l"
  using record_join [of d i p] body_no_break [of d i p] by (auto simp: lineterminator_def)

lemma header_one_line:
  "\<exists>l. csv_record header = l @ [CR, LF] \<and> CR \<notin> set l \<and> LF \<notin> set l"
  using header_record header_no_break by blast

text \<open>
  C8: in a run where no file operation fails, every record is handed to the file by one
  write, in order, the header first; every record, the header and each row, is a text without
  carriage return or line feed followed by the line terminator, which is carriage return and
  line feed; so every record ends its line and lies on one line, and the file holds as many
  line feeds as records, \<open>N + 1\<close>.
\<close>

theorem one_record_per_line:
  assumes "\<And>k. \<not> fl k"
  shows "\<exists>f rs. generate d fl N old = (Inr (), 5 * N, f) \<and> run_rows d N rs \<and> wrote f rs
     \<and> oplog f = OpOpen # OpWrite (csv_record header)
          # map (\<lambda>r. OpWrite (csv_record (row_cells r))) rs @ [OpClose]
     \<and> lineterminator = [CR, LF]
     \<and> (\<exists>l. csv_record header = l @ [CR, LF] \<and> CR \<notin> set l \<and> LF \<notin> set l)
     \<and> (\<forall>i < N. \<exists>l. csv_record (row_cells (rs ! i)) = l @ [CR, LF]
           \<and> CR \<notin> set l \<and> LF \<notin> set l)
     \<and> line_count (content f) = N + 1"
proof -
  from run_full [where fl = fl and d = d and N = N and old = old, OF assms]
  obtain f rs where g: "generate d fl N old = (Inr (), 5 * N, f)"
    and r: "run_rows d N rs" and w: "wrote f rs"
    and t: "oplog f = OpOpen # OpWrite (csv_record header)
          # map (\<lambda>r. OpWrite (csv_record (row_cells r))) rs @ [OpClose]"
    and lc: "line_count (content f) = N + 1"
    by blast
  have b: "\<forall>i < N. \<exists>l. csv_record (row_cells (rs ! i)) = l @ [CR, LF]
           \<and> CR \<notin> set l \<and> LF \<notin> set l"
    using run_rows_nth [OF r] record_one_line by simp
  from g r w t lineterminator_def header_one_line b lc show ?thesis by blast
qed

theorem one_record_per_line_witness:
  "\<exists>f rs. generate (\<lambda>k. 11 * k) (\<lambda>k. False) 3 ''old'' = (Inr (), 5 * 3, f)
     \<and> run_rows (\<lambda>k. 11 * k) 3 rs \<and> wrote f rs
     \<and> oplog f = OpOpen # OpWrite (csv_record header)
          # map (\<lambda>r. OpWrite (csv_record (row_cells r))) rs @ [OpClose]
     \<and> lineterminator = [CR, LF]
     \<and> (\<exists>l. csv_record header = l @ [CR, LF] \<and> CR \<notin> set l \<and> LF \<notin> set l)
     \<and> (\<forall>i < 3. \<exists>l. csv_record (row_cells (rs ! i)) = l @ [CR, LF]
           \<and> CR \<notin> set l \<and> LF \<notin> set l)
     \<and> line_count (content f) = 3 + 1"
  by (rule one_record_per_line [where fl = "\<lambda>k. False"]) simp

subsection \<open>The header record\<close>

lemma at_in_record: "CHR ''@'' \<in> set (csv_record (row_cells (row_at d i p)))"
  by (simp add: row_record email_row_at)

lemma at_not_in_header: "CHR ''@'' \<notin> set (csv_record header)"
  by (simp add: header_record header_text_def CR_def LF_def)

lemma record_not_header: "csv_record (row_cells (row_at d i p)) \<noteq> csv_record header"
  using at_in_record [of d i p] at_not_in_header by auto

lemma header_bytes: "csv_record header = ''name,email,age,salary,department'' @ [CR, LF]"
  using header_record by (simp add: header_text_def)

text \<open>
  C2: in a run where no file operation fails, the first write after opening the file is the
  header record, which is the text \<open>name,email,age,salary,department\<close> followed by the line
  terminator, and the file begins with it; the writes that follow are the records of the
  rows, in order, and none of them is the header record, so the header is written exactly
  once, before every row. The record of a row is its name, email, age, salary and
  department, in this order, separated by commas.
\<close>

theorem header_once_and_field_order:
  assumes "\<And>k. \<not> fl k"
  shows "\<exists>f rs. generate d fl N old = (Inr (), 5 * N, f) \<and> run_rows d N rs \<and> wrote f rs
     \<and> oplog f = OpOpen # OpWrite (csv_record header)
          # map (\<lambda>r. OpWrite (csv_record (row_cells r))) rs @ [OpClose]
     \<and> csv_record header = ''name,email,age,salary,department'' @ [CR, LF]
     \<and> (\<exists>rest. content f = ''name,email,age,salary,department'' @ [CR, LF] @ rest)
     \<and> (\<forall>i < N. csv_record (row_cells (rs ! i)) \<noteq> csv_record header
           \<and> csv_record (row_cells (rs ! i)) =
               name (rs ! i) @ '','' @ email (rs ! i) @ '','' @ py_str (age (rs ! i)) @ '',''
                 @ py_str (salary (rs ! i)) @ '','' @ dept (rs ! i) @ [CR, LF])"
proof -
  from run_full [where fl = fl and d = d and N = N and old = old, OF assms]
  obtain f rs where g: "generate d fl N old = (Inr (), 5 * N, f)"
    and r: "run_rows d N rs" and w: "wrote f rs"
    and t: "oplog f = OpOpen # OpWrite (csv_record header)
          # map (\<lambda>r. OpWrite (csv_record (row_cells r))) rs @ [OpClose]"
    by blast
  from w have "content f = ''name,email,age,salary,department'' @ [CR, LF]
      @ concat (map (\<lambda>r. csv_record (row_cells r)) rs)"
    unfolding wrote_def header_bytes by simp
  then have c: "\<exists>rest. content f = ''name,email,age,salary,department'' @ [CR, LF] @ rest"
    by blast
  have b: "\<forall>i < N. csv_record (row_cells (rs ! i)) \<noteq> csv_record header
           \<and> csv_record (row_cells (rs ! i)) =
               name (rs ! i) @ '','' @ email (rs ! i) @ '','' @ py_str (age (rs ! i)) @ '',''
                 @ py_str (salary (rs ! i)) @ '','' @ dept (rs ! i) @ [CR, LF]"
  proof (intro allI impI)
    fix i assume "i < N"
    then have e: "rs ! i = row_at d i (5 * i)" by (rule run_rows_nth [OF r])
    show "csv_record (row_cells (rs ! i)) \<noteq> csv_record header
           \<and> csv_record (row_cells (rs ! i)) =
               name (rs ! i) @ '','' @ email (rs ! i) @ '','' @ py_str (age (rs ! i)) @ '',''
                 @ py_str (salary (rs ! i)) @ '','' @ dept (rs ! i) @ [CR, LF]"
      unfolding e using record_not_header [of d i "5 * i"] row_record [of d i "5 * i"]
      by blast
  qed
  from g r w t header_bytes c b show ?thesis by blast
qed

theorem header_once_and_field_order_witness:
  "\<exists>f rs. generate (\<lambda>k. k * k) (\<lambda>k. False) 3 ''old'' = (Inr (), 5 * 3, f)
     \<and> run_rows (\<lambda>k. k * k) 3 rs \<and> wrote f rs
     \<and> oplog f = OpOpen # OpWrite (csv_record header)
          # map (\<lambda>r. OpWrite (csv_record (row_cells r))) rs @ [OpClose]
     \<and> csv_record header = ''name,email,age,salary,department'' @ [CR, LF]
     \<and> (\<exists>rest. content f = ''name,email,age,salary,department'' @ [CR, LF] @ rest)
     \<and> (\<forall>i < 3. csv_record (row_cells (rs ! i)) \<noteq> csv_record header
           \<and> csv_record (row_cells (rs ! i)) =
               name (rs ! i) @ '','' @ email (rs ! i) @ '','' @ py_str (age (rs ! i)) @ '',''
                 @ py_str (salary (rs ! i)) @ '','' @ dept (rs ! i) @ [CR, LF])"
  by (rule header_once_and_field_order [where fl = "\<lambda>k. False"]) simp

subsection \<open>Runs with the same sampled values\<close>

lemma outcome_choice_first: "outcome (choice d first_names p) = Some (first_names ! (d p mod 8))"
  by (simp add: choice_nonempty first_names_nonempty length_first_names)

lemma outcome_choice_last: "outcome (choice d last_names p) = Some (last_names ! (d p mod 8))"
  by (simp add: choice_nonempty last_names_nonempty length_last_names)

lemma outcome_choice_dept: "outcome (choice d depts p) = Some (depts ! (d p mod 7))"
  by (simp add: choice_nonempty depts_nonempty length_depts)

lemma outcome_randint_age: "outcome (randint d 22 65 p) = Some (22 + int (d p mod 44))"
  by (simp add: randint_nonempty)

lemma outcome_randint_salary:
  "outcome (randint d 40000 160000 p) = Some (40000 + int (d p mod 120001))"
  by (simp add: randint_nonempty)

lemma same_outcomes_same_row:
  assumes "outcome (choice d1 first_names p) = outcome (choice d2 first_names p)"
    and "outcome (choice d1 last_names (p + 1)) = outcome (choice d2 last_names (p + 1))"
    and "outcome (randint d1 22 65 (p + 2)) = outcome (randint d2 22 65 (p + 2))"
    and "outcome (randint d1 40000 160000 (p + 3)) = outcome (randint d2 40000 160000 (p + 3))"
    and "outcome (choice d1 depts (p + 4)) = outcome (choice d2 depts (p + 4))"
  shows "row_at d1 i p = row_at d2 i p"
proof -
  from assms(1) have a: "first_names ! (d1 p mod 8) = first_names ! (d2 p mod 8)"
    by (simp only: outcome_choice_first option.inject)
  from assms(2) have b: "last_names ! (d1 (p + 1) mod 8) = last_names ! (d2 (p + 1) mod 8)"
    by (simp only: outcome_choice_last option.inject)
  from assms(3) have c: "22 + int (d1 (p + 2) mod 44) = 22 + int (d2 (p + 2) mod 44)"
    by (simp only: outcome_randint_age option.inject)
  from assms(4) have e: "40000 + int (d1 (p + 3) mod 120001) = 40000 + int (d2 (p + 3) mod 120001)"
    by (simp only: outcome_randint_salary option.inject)
  from assms(5) have g: "depts ! (d1 (p + 4) mod 7) = depts ! (d2 (p + 4) mod 7)"
    by (simp only: outcome_choice_dept option.inject)
  show ?thesis
    unfolding row_at_def a b c e g ..
qed

text \<open>
  C10: take two runs for the same \<open>N\<close> in which no file operation fails, whatever their raw
  draws and whatever the file held before. If at every index below \<open>N\<close> the five sampling
  calls (first name, last name, age, salary, department, at draws \<open>5 * i\<close> to \<open>5 * i + 4\<close>)
  return the same values in both runs, then the two runs write the same records in the same
  order and leave files with the same content: \<open>N + 1\<close> lines after exactly \<open>5 * N\<close> draws,
  whatever was drawn.
\<close>

theorem same_draws_same_file:
  assumes "\<And>k. \<not> fl1 k" and "\<And>k. \<not> fl2 k"
    and "\<forall>i < N.
        outcome (choice d1 first_names (5 * i)) = outcome (choice d2 first_names (5 * i))
      \<and> outcome (choice d1 last_names (5 * i + 1)) = outcome (choice d2 last_names (5 * i + 1))
      \<and> outcome (randint d1 22 65 (5 * i + 2)) = outcome (randint d2 22 65 (5 * i + 2))
      \<and> outcome (randint d1 40000 160000 (5 * i + 3)) =
          outcome (randint d2 40000 160000 (5 * i + 3))
      \<and> outcome (choice d1 depts (5 * i + 4)) = outcome (choice d2 depts (5 * i + 4))"
  shows "\<exists>f1 f2. generate d1 fl1 N old1 = (Inr (), 5 * N, f1)
     \<and> generate d2 fl2 N old2 = (Inr (), 5 * N, f2)
     \<and> content f1 = content f2 \<and> oplog f1 = oplog f2
     \<and> line_count (content f1) = N + 1"
proof -
  have rows: "row_at d1 i (5 * i) = row_at d2 i (5 * i)" if "i < N" for i
    using assms(3) that by (intro same_outcomes_same_row) blast+
  have "map (line_at d1) [0..<N] = map (line_at d2) [0..<N]"
    by (rule map_cong) (simp_all add: line_at_def rows)
  then have l: "map (line_at d2) [0..<N] = map (line_at d1) [0..<N]" by (rule sym)
  let ?f = "\<lparr>handle = Closed,
      content = csv_record header @ concat (map (line_at d1) [0..<N]),
      oplog = OpOpen # OpWrite (csv_record header) # map OpWrite (map (line_at d1) [0..<N])
        @ [OpClose]\<rparr>"
  have g1: "generate d1 fl1 N old1 = (Inr (), 5 * N, ?f)"
    using assms(1) by (rule generate_ok)
  have "generate d2 fl2 N old2 = (Inr (), 5 * N,
     \<lparr>handle = Closed,
      content = csv_record header @ concat (map (line_at d2) [0..<N]),
      oplog = OpOpen # OpWrite (csv_record header) # map OpWrite (map (line_at d2) [0..<N])
        @ [OpClose]\<rparr>)"
    using assms(2) by (rule generate_ok)
  then have g2: "generate d2 fl2 N old2 = (Inr (), 5 * N, ?f)"
    unfolding l .
  from run_lines [where fl = fl1 and d = d1 and N = N and old = old1, OF assms(1)] g1
  have lc: "line_count (content ?f) = N + 1" by auto
  from g1 g2 lc show ?thesis by blast
qed

theorem same_draws_same_file_witness:
  "\<exists>f1 f2. generate (\<lambda>k. 0) (\<lambda>k. False) 3 ''old'' = (Inr (), 5 * 3, f1)
     \<and> generate (\<lambda>k. 10560088) (\<lambda>k. False) 3 [] = (Inr (), 5 * 3, f2)
     \<and> content f1 = content f2 \<and> oplog f1 = oplog f2
     \<and> line_count (content f1) = 3 + 1"
proof (rule same_draws_same_file)
  show "\<not> False" by simp
next
  show "\<not> False" by simp
next
  show "\<forall>i < 3.
        outcome (choice (\<lambda>k. 0) first_names (5 * i)) =
          outcome (choice (\<lambda>k. 10560088) first_names (5 * i))
      \<and> outcome (choice (\<lambda>k. 0) last_names (5 * i + 1)) =
          outcome (choice (\<lambda>k. 10560088) last_names (5 * i + 1))
      \<and> outcome (randint (\<lambda>k. 0) 22 65 (5 * i + 2)) =
          outcome (randint (\<lambda>k. 10560088) 22 65 (5 * i + 2))
      \<and> outcome (randint (\<lambda>k. 0) 40000 160000 (5 * i + 3)) =
          outcome (randint (\<lambda>k. 10560088) 40000 160000 (5 * i + 3))
      \<and> outcome (choice (\<lambda>k. 0) depts (5 * i + 4)) =
          outcome (choice (\<lambda>k. 10560088) depts (5 * i + 4))"
    by (simp add: choice_def randint_def randbelow_def first_names_def last_names_def depts_def)
qed

section \<open>The run when an operation on the file fails\<close>

lemma ok_ops_le: "ok_ops fl a n \<le> n"
  by (induction n arbitrary: a) simp_all

lemma ok_ops_before: "j < ok_ops fl a n \<Longrightarrow> \<not> fl (a + j)"
proof (induction n arbitrary: a j)
  case 0
  then show ?case by simp
next
  case (Suc n)
  show ?case
  proof (cases "fl a")
    case True
    with Suc.prems show ?thesis by simp
  next
    case False
    show ?thesis
    proof (cases j)
      case 0
      with False show ?thesis by simp
    next
      case (Suc j')
      with Suc.prems False have "j' < ok_ops fl (Suc a) n" by simp
      then have "\<not> fl (Suc a + j')" by (rule Suc.IH)
      with Suc show ?thesis by simp
    qed
  qed
qed

lemma ok_ops_stop: "ok_ops fl a n < n \<Longrightarrow> fl (a + ok_ops fl a n)"
proof (induction n arbitrary: a)
  case 0
  then show ?case by simp
next
  case (Suc n)
  show ?case
  proof (cases "fl a")
    case True
    then show ?thesis by simp
  next
    case False
    with Suc.prems have "ok_ops fl (Suc a) n < n" by simp
    then have "fl (Suc a + ok_ops fl (Suc a) n)" by (rule Suc.IH)
    with False show ?thesis by simp
  qed
qed

lemma file_write_cases:
  "handle f = Opened \<Longrightarrow>
   file_write fl data f =
     (if fl (length (oplog f)) then (Inl OSError, f\<lparr>oplog := oplog f @ [OpWrite data]\<rparr>)
      else (Inr (), f\<lparr>oplog := oplog f @ [OpWrite data], content := content f @ data\<rparr>))"
  by (simp add: file_write_def Let_def)

lemma rows_loop_any:
  "handle f = Opened \<Longrightarrow>
   rows_loop d fl is p f =
     ((if ok_ops fl (length (oplog f)) (length is) = length is then Inr () else Inl OSError),
      p + 5 * min (Suc (ok_ops fl (length (oplog f)) (length is))) (length is),
      f\<lparr>oplog := oplog f
           @ map OpWrite (take (Suc (ok_ops fl (length (oplog f)) (length is)))
               (lines_from d is p)),
        content := content f
           @ concat (take (ok_ops fl (length (oplog f)) (length is)) (lines_from d is p))\<rparr>)"
proof (induction "is" arbitrary: p f)
  case Nil
  then show ?case by simp
next
  case (Cons i "is")
  let ?l = "csv_record (row_cells (row_at d i p))"
  show ?case
  proof (cases "fl (length (oplog f))")
    case True
    have "writerow fl (row_cells (row_at d i p)) f =
        (Inl OSError, f\<lparr>oplog := oplog f @ [OpWrite ?l]\<rparr>)"
      unfolding writerow_def using Cons.prems True by (simp add: file_write_cases)
    then have "rows_loop d fl (i # is) p f = (Inl OSError, p + 5, f\<lparr>oplog := oplog f @ [OpWrite ?l]\<rparr>)"
      by (simp add: sample_row_at)
    with True show ?thesis by simp
  next
    case False
    let ?f = "f\<lparr>oplog := oplog f @ [OpWrite ?l], content := content f @ ?l\<rparr>"
    let ?k = "ok_ops fl (Suc (length (oplog f))) (length is)"
    have w: "writerow fl (row_cells (row_at d i p)) f = (Inr (), ?f)"
      unfolding writerow_def using Cons.prems False by (simp add: file_write_cases)
    have h: "handle ?f = Opened" using Cons.prems by simp
    have len: "length (oplog ?f) = Suc (length (oplog f))" by simp
    have "rows_loop d fl (i # is) p f = rows_loop d fl is (p + 5) ?f"
      by (simp add: sample_row_at w)
    also have "\<dots> =
       ((if ok_ops fl (length (oplog ?f)) (length is) = length is then Inr () else Inl OSError),
        p + 5 + 5 * min (Suc (ok_ops fl (length (oplog ?f)) (length is))) (length is),
        ?f\<lparr>oplog := oplog ?f
             @ map OpWrite (take (Suc (ok_ops fl (length (oplog ?f)) (length is)))
                 (lines_from d is (p + 5))),
          content := content ?f
             @ concat (take (ok_ops fl (length (oplog ?f)) (length is))
                 (lines_from d is (p + 5)))\<rparr>)"
      using h by (rule Cons.IH)
    also have "\<dots> =
       ((if ?k = length is then Inr () else Inl OSError),
        p + 5 + 5 * min (Suc ?k) (length is),
        ?f\<lparr>oplog := oplog ?f @ map OpWrite (take (Suc ?k) (lines_from d is (p + 5))),
          content := content ?f @ concat (take ?k (lines_from d is (p + 5)))\<rparr>)"
      unfolding len ..
    finally show ?thesis using False by simp
  qed
qed

lemma records_Suc: "take (Suc k) (records d N) = csv_record header # take k (map (line_at d) [0..<N])"
  by (simp add: records_def)

lemma length_records: "length (records d N) = N + 1"
  by (simp add: records_def)

lemma generate_open_fails:
  "fl 0 \<Longrightarrow>
   generate d fl N old = (Inl OSError, 0, \<lparr>handle = Unopened, content = old, oplog = [OpOpen]\<rparr>)"
  by (simp add: generate_def file_open_def new_sink_def)

lemma generate_opened:
  assumes "\<not> fl 0"
  shows "generate d fl N old =
     ((if ok_ops fl 1 (N + 1) = N + 1 \<and> \<not> fl (N + 2) then Inr () else Inl OSError),
      5 * min (ok_ops fl 1 (N + 1)) N,
      \<lparr>handle = Closed,
       content = concat (take (ok_ops fl 1 (N + 1)) (records d N)),
       oplog = OpOpen # map OpWrite (take (Suc (ok_ops fl 1 (N + 1))) (records d N))
         @ [OpClose]\<rparr>)"
proof -
  let ?f1 = "\<lparr>handle = Opened, content = [], oplog = [OpOpen]\<rparr>"
  have o: "file_open fl (new_sink old) = (Inr (), ?f1)"
    using assms by (simp add: file_open_def new_sink_def)
  show ?thesis
  proof (cases "fl 1")
    case True
    have w: "writerow fl header ?f1 =
        (Inl OSError, \<lparr>handle = Opened, content = [], oplog = [OpOpen, OpWrite (csv_record header)]\<rparr>)"
      unfolding writerow_def using True by (simp add: file_write_cases)
    have b: "with_body d fl N 0 ?f1 =
        (Inl OSError, 0,
         \<lparr>handle = Opened, content = [], oplog = [OpOpen, OpWrite (csv_record header)]\<rparr>)"
      unfolding with_body_def w by simp
    have k: "ok_ops fl 1 (N + 1) = 0" using True by simp
    show ?thesis
      unfolding generate_def o k by (simp add: b file_close_def records_def Let_def)
  next
    case False
    let ?f2 = "\<lparr>handle = Opened, content = csv_record header,
        oplog = [OpOpen, OpWrite (csv_record header)]\<rparr>"
    let ?k = "ok_ops fl 2 N"
    let ?ls = "map (line_at d) [0..<N]"
    have w: "writerow fl header ?f1 = (Inr (), ?f2)"
      unfolding writerow_def using False by (simp add: file_write_cases)
    have "handle ?f2 = Opened" by simp
    then have "rows_loop d fl [0..<N] 0 ?f2 =
     ((if ok_ops fl (length (oplog ?f2)) (length [0..<N]) = length [0..<N] then Inr ()
       else Inl OSError),
      0 + 5 * min (Suc (ok_ops fl (length (oplog ?f2)) (length [0..<N]))) (length [0..<N]),
      ?f2\<lparr>oplog := oplog ?f2
           @ map OpWrite (take (Suc (ok_ops fl (length (oplog ?f2)) (length [0..<N])))
               (lines_from d [0..<N] 0)),
        content := content ?f2
           @ concat (take (ok_ops fl (length (oplog ?f2)) (length [0..<N]))
               (lines_from d [0..<N] 0))\<rparr>)"
      by (rule rows_loop_any)
    then have l: "rows_loop d fl [0..<N] 0 ?f2 =
     ((if ?k = N then Inr () else Inl OSError), 5 * min (Suc ?k) N,
      \<lparr>handle = Opened, content = csv_record header @ concat (take ?k ?ls),
       oplog = [OpOpen, OpWrite (csv_record header)] @ map OpWrite (take (Suc ?k) ?ls)\<rparr>)"
      by (simp add: lines_from_range numeral_2_eq_2)
    have b: "with_body d fl N 0 ?f1 =
     ((if ?k = N then Inr () else Inl OSError), 5 * min (Suc ?k) N,
      \<lparr>handle = Opened, content = csv_record header @ concat (take ?k ?ls),
       oplog = [OpOpen, OpWrite (csv_record header)] @ map OpWrite (take (Suc ?k) ?ls)\<rparr>)"
      unfolding with_body_def w using l by simp
    have k: "ok_ops fl 1 (N + 1) = Suc ?k" using False by (simp add: numeral_2_eq_2)
    have kle: "?k \<le> N" by (rule ok_ops_le)
    have len: "length (take (Suc ?k) ?ls) = min (Suc ?k) N" by simp
    show ?thesis
    proof (cases "?k = N")
      case True
      then have t: "take (Suc ?k) ?ls = ?ls" "take ?k ?ls = ?ls" by simp_all
      show ?thesis
        unfolding generate_def o k records_Suc
        using True by (simp add: b file_close_def t records_def Let_def)
    next
      case neq: False
      with kle have lt: "?k < N" by simp
      then have m: "min (Suc ?k) N = Suc ?k" by simp
      show ?thesis
        unfolding generate_def o k records_Suc
        using neq lt by (simp add: b file_close_def records_def m Let_def)
    qed
  qed
qed

lemma ok_ops_full: "(ok_ops fl a n = n) = (\<forall>j < n. \<not> fl (a + j))"
proof
  assume "ok_ops fl a n = n"
  then show "\<forall>j < n. \<not> fl (a + j)" using ok_ops_before [of _ fl a n] by simp
next
  assume all: "\<forall>j < n. \<not> fl (a + j)"
  show "ok_ops fl a n = n"
  proof (rule ccontr)
    assume "ok_ops fl a n \<noteq> n"
    with ok_ops_le [of fl a n] have lt: "ok_ops fl a n < n" by simp
    then have "fl (a + ok_ops fl a n)" by (rule ok_ops_stop)
    with all lt show False by blast
  qed
qed

lemma all_ops_ok:
  "(\<forall>j < N + 3. \<not> fl j) = (\<not> fl 0 \<and> ok_ops fl 1 (N + 1) = N + 1 \<and> \<not> fl (N + 2))"
proof -
  have "(\<forall>j < N + 3. \<not> fl j) = (\<not> fl 0 \<and> (\<forall>j < N + 1. \<not> fl (1 + j)) \<and> \<not> fl (N + 2))"
  proof
    assume a: "\<forall>j < N + 3. \<not> fl j"
    then show "\<not> fl 0 \<and> (\<forall>j < N + 1. \<not> fl (1 + j)) \<and> \<not> fl (N + 2)" by simp
  next
    assume b: "\<not> fl 0 \<and> (\<forall>j < N + 1. \<not> fl (1 + j)) \<and> \<not> fl (N + 2)"
    show "\<forall>j < N + 3. \<not> fl j"
    proof (intro allI impI)
      fix j assume j: "j < N + 3"
      then have "j = 0 \<or> j = N + 2 \<or> (\<exists>i < N + 1. j = 1 + i)" by presburger
      then show "\<not> fl j" using b by auto
    qed
  qed
  then show ?thesis by (simp only: ok_ops_full)
qed

text \<open>
  C9: every run returns, and it ends either normally or with \<open>OSError\<close>, never with another
  exception; it ends normally exactly when none of its \<open>N + 3\<close> operations on the file
  (opening, the \<open>N + 1\<close> writes, closing, which flushes what was written) fails. When opening
  fails, nothing else is attempted: no handle exists, no draw is made. When opening
  succeeds, the writes are attempted in order, each once, up to and including the first that
  fails; after a failed write no row is sampled and no write is attempted any more, the
  only operation that follows is the closing of the file, and the run ends with \<open>OSError\<close>.
  On every path the file is not left open: it is closed whenever it had been opened.
\<close>

theorem failure_is_oserror_and_file_closed:
  "\<exists>r p f. generate d fl N old = (r, p, f)
     \<and> (r = Inr () \<or> r = Inl OSError)
     \<and> (r = Inr ()) = (\<forall>j < N + 3. \<not> fl j)
     \<and> handle f \<noteq> Opened
     \<and> (fl 0 \<longrightarrow> r = Inl OSError \<and> p = 0 \<and> handle f = Unopened \<and> oplog f = [OpOpen])
     \<and> (\<not> fl 0 \<longrightarrow> handle f = Closed
           \<and> (\<exists>k. k = ok_ops fl 1 (N + 1) \<and> k \<le> N + 1
                 \<and> (\<forall>j < k. \<not> fl (Suc j))
                 \<and> (k < N + 1 \<longrightarrow> fl (Suc k) \<and> r = Inl OSError)
                 \<and> p = 5 * min k N
                 \<and> oplog f = OpOpen # map OpWrite (take (Suc k) (records d N)) @ [OpClose]))"
proof (cases "fl 0")
  case True
  let ?f = "\<lparr>handle = Unopened, content = old, oplog = [OpOpen]\<rparr>"
  have g: "generate d fl N old = (Inl OSError, 0, ?f)"
    using True by (rule generate_open_fails)
  have "0 < N + 3" by simp
  with True have n: "\<not> (\<forall>j < N + 3. \<not> fl j)" by blast
  have body: "generate d fl N old = (Inl OSError, 0, ?f)
     \<and> ((Inl OSError :: py_error + unit) = Inr () \<or> (Inl OSError :: py_error + unit) = Inl OSError)
     \<and> ((Inl OSError :: py_error + unit) = Inr ()) = (\<forall>j < N + 3. \<not> fl j)
     \<and> handle ?f \<noteq> Opened
     \<and> (fl 0 \<longrightarrow> (Inl OSError :: py_error + unit) = Inl OSError \<and> (0 :: nat) = 0
           \<and> handle ?f = Unopened \<and> oplog ?f = [OpOpen])
     \<and> (\<not> fl 0 \<longrightarrow> handle ?f = Closed
           \<and> (\<exists>k. k = ok_ops fl 1 (N + 1) \<and> k \<le> N + 1
                 \<and> (\<forall>j < k. \<not> fl (Suc j))
                 \<and> (k < N + 1 \<longrightarrow> fl (Suc k) \<and> (Inl OSError :: py_error + unit) = Inl OSError)
                 \<and> 0 = 5 * min k N
                 \<and> oplog ?f = OpOpen # map OpWrite (take (Suc k) (records d N)) @ [OpClose]))"
    apply (intro conjI impI)
    subgoal by (rule g)
    subgoal by simp
    subgoal using n by simp
    subgoal by simp
    subgoal by simp
    subgoal by simp
    subgoal by simp
    subgoal by simp
    subgoal using True by simp
    subgoal using True by simp
    done
  then show ?thesis by (intro exI)
next
  case False
  let ?k = "ok_ops fl 1 (N + 1)"
  let ?r = "(if ?k = N + 1 \<and> \<not> fl (N + 2) then Inr () else Inl OSError) :: py_error + unit"
  let ?f = "\<lparr>handle = Closed, content = concat (take ?k (records d N)),
       oplog = OpOpen # map OpWrite (take (Suc ?k) (records d N)) @ [OpClose]\<rparr>"
  have g: "generate d fl N old = (?r, 5 * min ?k N, ?f)"
    using False by (rule generate_opened)
  have r1: "?r = Inr () \<or> ?r = Inl OSError" by simp
  have r2: "(?r = Inr ()) = (\<forall>j < N + 3. \<not> fl j)"
    unfolding all_ops_ok using False by simp
  have k1: "?k \<le> N + 1" by (rule ok_ops_le)
  have k2: "\<forall>j < ?k. \<not> fl (Suc j)"
  proof (intro allI impI)
    fix j assume "j < ?k"
    then have "\<not> fl (1 + j)" by (rule ok_ops_before)
    then show "\<not> fl (Suc j)" by simp
  qed
  have k3: "?k < N + 1 \<longrightarrow> fl (Suc ?k) \<and> ?r = Inl OSError"
  proof
    assume lt: "?k < N + 1"
    then have "fl (1 + ?k)" by (rule ok_ops_stop)
    then have "fl (Suc ?k)" by simp
    moreover from lt have "?r = Inl OSError" by simp
    ultimately show "fl (Suc ?k) \<and> ?r = Inl OSError" by (rule conjI)
  qed
  have ex: "\<exists>k. k = ?k \<and> k \<le> N + 1
                 \<and> (\<forall>j < k. \<not> fl (Suc j))
                 \<and> (k < N + 1 \<longrightarrow> fl (Suc k) \<and> ?r = Inl OSError)
                 \<and> 5 * min ?k N = 5 * min k N
                 \<and> oplog ?f = OpOpen # map OpWrite (take (Suc k) (records d N)) @ [OpClose]"
    apply (rule exI [where x = "?k"])
    apply (intro conjI)
    subgoal by (rule refl)
    subgoal by (rule k1)
    subgoal by (rule k2)
    subgoal by (rule k3)
    subgoal by (rule refl)
    subgoal by simp
    done
  have body: "generate d fl N old = (?r, 5 * min ?k N, ?f)
     \<and> (?r = Inr () \<or> ?r = Inl OSError)
     \<and> (?r = Inr ()) = (\<forall>j < N + 3. \<not> fl j)
     \<and> handle ?f \<noteq> Opened
     \<and> (fl 0 \<longrightarrow> ?r = Inl OSError \<and> 5 * min ?k N = 0
           \<and> handle ?f = Unopened \<and> oplog ?f = [OpOpen])
     \<and> (\<not> fl 0 \<longrightarrow> handle ?f = Closed
           \<and> (\<exists>k. k = ?k \<and> k \<le> N + 1
                 \<and> (\<forall>j < k. \<not> fl (Suc j))
                 \<and> (k < N + 1 \<longrightarrow> fl (Suc k) \<and> ?r = Inl OSError)
                 \<and> 5 * min ?k N = 5 * min k N
                 \<and> oplog ?f = OpOpen # map OpWrite (take (Suc k) (records d N)) @ [OpClose]))"
    apply (intro conjI impI)
    subgoal by (rule g)
    subgoal by (rule r1)
    subgoal by (rule r2)
    subgoal by simp
    subgoal using False by (rule notE)
    subgoal using False by (rule notE)
    subgoal using False by (rule notE)
    subgoal using False by (rule notE)
    subgoal by simp
    subgoal by (rule ex)
    done
  then show ?thesis by (intro exI)
qed

theorem failure_is_oserror_and_file_closed_witness:
  "(\<exists>p f. generate (\<lambda>k. k) (\<lambda>k. k = 3) 3 ''old'' = (Inl OSError, p, f)
       \<and> p = 10 \<and> handle f = Closed
       \<and> oplog f = OpOpen # map OpWrite (take 3 (records (\<lambda>k. k) 3)) @ [OpClose])
   \<and> (\<exists>p f. generate (\<lambda>k. k) (\<lambda>k. k = 0) 3 ''old'' = (Inl OSError, p, f)
       \<and> p = 0 \<and> handle f = Unopened \<and> oplog f = [OpOpen])
   \<and> (\<exists>p f. generate (\<lambda>k. k) (\<lambda>k. False) 3 ''old'' = (Inr (), p, f)
       \<and> p = 15 \<and> handle f = Closed
       \<and> oplog f = OpOpen # map OpWrite (records (\<lambda>k. k) 3) @ [OpClose])"
proof (intro conjI)
  have k: "ok_ops (\<lambda>k. k = 3) 1 (3 + 1) = 2"
    by (simp add: eval_nat_numeral)
  show "\<exists>p f. generate (\<lambda>k. k) (\<lambda>k. k = 3) 3 ''old'' = (Inl OSError, p, f)
       \<and> p = 10 \<and> handle f = Closed
       \<and> oplog f = OpOpen # map OpWrite (take 3 (records (\<lambda>k. k) 3)) @ [OpClose]"
    using failure_is_oserror_and_file_closed [of "\<lambda>k. k" "\<lambda>k. k = 3" 3 "''old''"]
    unfolding k by (auto simp: numeral_3_eq_3)
next
  show "\<exists>p f. generate (\<lambda>k. k) (\<lambda>k. k = 0) 3 ''old'' = (Inl OSError, p, f)
       \<and> p = 0 \<and> handle f = Unopened \<and> oplog f = [OpOpen]"
    using failure_is_oserror_and_file_closed [of "\<lambda>k. k" "\<lambda>k. k = 0" 3 "''old''"]
    by auto
next
  have k: "ok_ops (\<lambda>k. False) 1 (3 + 1) = 4"
    by (simp add: eval_nat_numeral)
  have t: "take 5 (records (\<lambda>k. k) 3) = records (\<lambda>k. k) 3"
    by (simp add: length_records)
  show "\<exists>p f. generate (\<lambda>k. k) (\<lambda>k. False) 3 ''old'' = (Inr (), p, f)
       \<and> p = 15 \<and> handle f = Closed
       \<and> oplog f = OpOpen # map OpWrite (records (\<lambda>k. k) 3) @ [OpClose]"
    using failure_is_oserror_and_file_closed [of "\<lambda>k. k" "\<lambda>k. False" 3 "''old''"]
    unfolding k by (auto simp: t)
qed

end
